theory Spec2Isabelle
  imports Main "HOL-Library.Char_ord" "HOL-Library.List_Lexorder" "HOL-Library.Sublist"
begin

section \<open>Text\<close>

text \<open>
  The script texts are Python \<open>str\<close> values.  A character is modelled by an 8-bit
  \<^typ>\<open>char\<close>, read as the code point of the same number, so the development covers
  the texts whose code points are below 256.  The three character tests below are the
  ones the source uses on such code points: \<open>str.isspace\<close> (which is also the regular
  expression class \<open>\s\<close> and what \<open>str.strip()\<close> removes), the class \<open>\w\<close>, and the
  comparison of a pattern literal with a text character under \<open>re.IGNORECASE\<close>.
\<close>

abbreviation QUOTE :: char where
  "QUOTE \<equiv> CHR 0x27"

abbreviation BACKSLASH :: char where
  "BACKSLASH \<equiv> CHR 0x5C"

abbreviation NEWLINE :: char where
  "NEWLINE \<equiv> CHR 0x0A"

definition is_space :: "char \<Rightarrow> bool" where
  "is_space c = (let n = (of_char c :: nat) in
     (9 \<le> n \<and> n \<le> 13) \<or> (28 \<le> n \<and> n \<le> 32) \<or> n = 133 \<or> n = 160)"

definition is_word :: "char \<Rightarrow> bool" where
  "is_word c = (let n = (of_char c :: nat) in
     (48 \<le> n \<and> n \<le> 57) \<or> (65 \<le> n \<and> n \<le> 90) \<or> n = 95 \<or> (97 \<le> n \<and> n \<le> 122)
     \<or> n = 170 \<or> n = 178 \<or> n = 179 \<or> n = 181 \<or> n = 185 \<or> n = 186
     \<or> (188 \<le> n \<and> n \<le> 190) \<or> (192 \<le> n \<and> n \<le> 214) \<or> (216 \<le> n \<and> n \<le> 246)
     \<or> 248 \<le> n)"

definition ascii_lower :: "char \<Rightarrow> char" where
  "ascii_lower c = (let n = (of_char c :: nat) in
     if 65 \<le> n \<and> n \<le> 90 then char_of (n + 32) else c)"

text \<open>\<open>ieq p c\<close>: the pattern literal \<open>p\<close> matches the text character \<open>c\<close>, case ignored.\<close>

definition ieq :: "char \<Rightarrow> char \<Rightarrow> bool" where
  "ieq p c = (ascii_lower c = ascii_lower p)"

text \<open>\<open>s.strip()\<close>\<close>

definition strip :: "string \<Rightarrow> string" where
  "strip s = rev (dropWhile is_space (rev (dropWhile is_space s)))"

text \<open>\<open>s.replace(chr(10), chr(10) + '    ')\<close>\<close>

fun indent_newlines :: "string \<Rightarrow> string" where
  "indent_newlines [] = []"
| "indent_newlines (c # cs) =
     (if c = NEWLINE then NEWLINE # ''    '' @ indent_newlines cs
      else c # indent_newlines cs)"

text \<open>\<open>str(n)\<close> for a natural number.\<close>

definition digit_char :: "nat \<Rightarrow> char" where
  "digit_char d = char_of (48 + d)"

fun str_nat :: "nat \<Rightarrow> string" where
  "str_nat n = (if n < 10 then [digit_char n] else str_nat (n div 10) @ [digit_char (n mod 10)])"

declare str_nat.simps [simp del]

section \<open>Regular expressions\<close>

text \<open>
  The fragment of Python's \<open>re\<close> that \<open>pattern_load_csv\<close> is written in: literals
  (compared case-insensitively), the greedy repetition \<open>C+\<close> of a character class, sequence,
  the greedy optional group \<open>(?:r)?\<close> and capturing groups.  \<open>rx_match\<close> is the backtracking
  matcher: it matches \<open>r\<close> at the head of the text and hands the rest of the text, with the
  captures so far, to the continuation \<open>k\<close>; when the continuation fails, the next
  alternative is tried, the longer repetition before the shorter one and the optional
  group before its omission.  The captures are a list of group numbers with their texts,
  the group closed last in front.
\<close>

datatype charclass = Whitespace | WordChar | NotChar char

fun in_class :: "charclass \<Rightarrow> char \<Rightarrow> bool" where
  "in_class Whitespace c = is_space c"
| "in_class WordChar c = is_word c"
| "in_class (NotChar x) c = (c \<noteq> x)"

datatype rx = Eps | Lit char | OneOrMore charclass | Cat rx rx | Opt rx | Group nat rx

type_synonym caps = "(nat \<times> string) list"

fun rx_match :: "rx \<Rightarrow> string \<Rightarrow> caps \<Rightarrow> (string \<Rightarrow> caps \<Rightarrow> 'r option) \<Rightarrow> 'r option" where
  "rx_match Eps s g k = k s g"
| "rx_match (Lit p) [] g k = None"
| "rx_match (Lit p) (c # cs) g k = (if ieq p c then k cs g else None)"
| "rx_match (OneOrMore C) [] g k = None"
| "rx_match (OneOrMore C) (c # cs) g k =
     (if in_class C c
      then (case rx_match (OneOrMore C) cs g k of Some r \<Rightarrow> Some r | None \<Rightarrow> k cs g)
      else None)"
| "rx_match (Cat a b) s g k = rx_match a s g (\<lambda>s' g'. rx_match b s' g' k)"
| "rx_match (Opt a) s g k = (case rx_match a s g k of Some r \<Rightarrow> Some r | None \<Rightarrow> k s g)"
| "rx_match (Group i a) s g k =
     rx_match a s g (\<lambda>s' g'. k s' ((i, take (length s - length s') s) # g'))"

text \<open>The number of capturing groups of a pattern (\<open>Pattern.groups\<close>).\<close>

fun rx_groups :: "rx \<Rightarrow> nat" where
  "rx_groups (Cat a b) = max (rx_groups a) (rx_groups b)"
| "rx_groups (Opt a) = rx_groups a"
| "rx_groups (Group i a) = max i (rx_groups a)"
| "rx_groups _ = 0"

text \<open>A match object: where the match starts and ends in the text, and its groups.\<close>

record re_match =
  m_start :: nat
  m_end :: nat
  m_groups :: caps

definition m_group :: "re_match \<Rightarrow> nat \<Rightarrow> string" where
  "m_group m i = (case map_of (m_groups m) i of Some w \<Rightarrow> w | None \<Rightarrow> [])"

definition match_here :: "rx \<Rightarrow> string \<Rightarrow> (string \<times> caps) option" where
  "match_here r s = rx_match r s [] (\<lambda>s' g. Some (s', g))"

text \<open>\<open>Pattern.search\<close>: the match at the leftmost position that has one.\<close>

fun search_from :: "rx \<Rightarrow> nat \<Rightarrow> string \<Rightarrow> re_match option" where
  "search_from r i [] =
     (case match_here r [] of
        Some (s', g) \<Rightarrow> Some \<lparr>m_start = i, m_end = i, m_groups = g\<rparr>
      | None \<Rightarrow> None)"
| "search_from r i (c # cs) =
     (case match_here r (c # cs) of
        Some (s', g) \<Rightarrow> Some \<lparr>m_start = i, m_end = i + (length (c # cs) - length s'), m_groups = g\<rparr>
      | None \<Rightarrow> search_from r (Suc i) cs)"

definition search :: "rx \<Rightarrow> string \<Rightarrow> re_match option" where
  "search r s = search_from r 0 s"

subsection \<open>Replacement templates\<close>

text \<open>
  \<open>Pattern.sub(repl, string, count=1)\<close> with a string \<open>repl\<close> processes the backslash
  escapes of \<open>repl\<close> (\<open>parse_template\<close> of the standard library) before it replaces the
  first match.  The tokenizer reads a backslash together with the character after it;
  the parser turns the tokens into literal characters and group references, and raises
  \<open>re.error\<close> (here \<open>None\<close>) on a backslash at the end, on an unknown escape of an ASCII
  letter, on a malformed or unknown group name and on a reference to a group the pattern
  does not have.  A group name that is not a plain decimal number is rejected (the
  pattern has no named groups).
\<close>

datatype token = Chr char | Esc char

fun tokenize :: "string \<Rightarrow> token list option" where
  "tokenize [] = Some []"
| "tokenize [c] = (if c = BACKSLASH then None else Some [Chr c])"
| "tokenize (c # d # cs) =
     (if c = BACKSLASH then map_option ((#) (Esc d)) (tokenize cs)
      else map_option ((#) (Chr c)) (tokenize (d # cs)))"

datatype titem = TLit char | TGroup nat

definition is_digit :: "char \<Rightarrow> bool" where
  "is_digit c = (48 \<le> (of_char c :: nat) \<and> (of_char c :: nat) \<le> 57)"

definition is_octdigit :: "char \<Rightarrow> bool" where
  "is_octdigit c = (48 \<le> (of_char c :: nat) \<and> (of_char c :: nat) \<le> 55)"

definition is_ascii_letter :: "char \<Rightarrow> bool" where
  "is_ascii_letter c = (let n = (of_char c :: nat) in (65 \<le> n \<and> n \<le> 90) \<or> (97 \<le> n \<and> n \<le> 122))"

definition digit_val :: "char \<Rightarrow> nat" where
  "digit_val c = of_char c - 48"

definition decimal :: "string \<Rightarrow> nat" where
  "decimal ds = foldl (\<lambda>n d. 10 * n + digit_val d) 0 ds"

definition octal :: "string \<Rightarrow> nat" where
  "octal ds = foldl (\<lambda>n d. 8 * n + digit_val d) 0 ds"

text \<open>The table \<open>ESCAPES\<close>.\<close>

definition ESCAPES :: "char \<Rightarrow> char option" where
  "ESCAPES c =
     (if c = CHR ''a'' then Some (CHR 0x07)
      else if c = CHR ''b'' then Some (CHR 0x08)
      else if c = CHR ''f'' then Some (CHR 0x0C)
      else if c = CHR ''n'' then Some (CHR 0x0A)
      else if c = CHR ''r'' then Some (CHR 0x0D)
      else if c = CHR ''t'' then Some (CHR 0x09)
      else if c = CHR ''v'' then Some (CHR 0x0B)
      else if c = BACKSLASH then Some BACKSLASH
      else None)"

definition addgroup :: "nat \<Rightarrow> nat \<Rightarrow> titem list option \<Rightarrow> titem list option" where
  "addgroup groups index rest = (if index > groups then None else map_option ((#) (TGroup index)) rest)"

definition lappend :: "string \<Rightarrow> titem list option \<Rightarrow> titem list option" where
  "lappend cs rest = map_option ((@) (map TLit cs)) rest"

fun parse_tokens :: "nat \<Rightarrow> token list \<Rightarrow> titem list option"
  and getuntil :: "nat \<Rightarrow> string \<Rightarrow> token list \<Rightarrow> titem list option" where
  "parse_tokens n [] = Some []"
| "parse_tokens n (Chr c # ts) = lappend [c] (parse_tokens n ts)"
| "parse_tokens n (Esc c # ts) =
     (if c = CHR ''g'' then
        (case ts of
           Chr x # ts' \<Rightarrow> if x = CHR ''<'' then getuntil n [] ts' else None
         | _ \<Rightarrow> None)
      else if c = CHR ''0'' then
        (case ts of
           Chr d # ts' \<Rightarrow>
             if is_octdigit d then
               (case ts' of
                  Chr e # ts'' \<Rightarrow>
                    if is_octdigit e
                    then lappend [char_of (octal [d, e] mod 256)] (parse_tokens n ts'')
                    else lappend [char_of (octal [d])] (parse_tokens n ts')
                | _ \<Rightarrow> lappend [char_of (octal [d])] (parse_tokens n ts'))
             else lappend [CHR 0x00] (parse_tokens n ts)
         | _ \<Rightarrow> lappend [CHR 0x00] (parse_tokens n ts))
      else if is_digit c then
        (case ts of
           Chr d # ts' \<Rightarrow>
             if is_digit d then
               (case ts' of
                  Chr e # ts'' \<Rightarrow>
                    if is_octdigit c \<and> is_octdigit d \<and> is_octdigit e
                    then (if octal [c, d, e] > 255 then None
                          else lappend [char_of (octal [c, d, e])] (parse_tokens n ts''))
                    else addgroup n (decimal [c, d]) (parse_tokens n ts')
                | _ \<Rightarrow> addgroup n (decimal [c, d]) (parse_tokens n ts'))
             else addgroup n (decimal [c]) (parse_tokens n ts)
         | _ \<Rightarrow> addgroup n (decimal [c]) (parse_tokens n ts))
      else
        (case ESCAPES c of
           Some x \<Rightarrow> lappend [x] (parse_tokens n ts)
         | None \<Rightarrow>
             if is_ascii_letter c then None
             else lappend [BACKSLASH, c] (parse_tokens n ts)))"
| "getuntil n result [] = None"
| "getuntil n result (Chr c # ts) =
     (if c = CHR ''>'' then
        (if result \<noteq> [] \<and> list_all is_digit result
         then addgroup n (decimal result) (parse_tokens n ts)
         else None)
      else getuntil n (result @ [c]) ts)"
| "getuntil n result (Esc c # ts) = getuntil n (result @ [BACKSLASH, c]) ts"

definition parse_template :: "string \<Rightarrow> nat \<Rightarrow> titem list option" where
  "parse_template source groups =
     (case tokenize source of None \<Rightarrow> None | Some ts \<Rightarrow> parse_tokens groups ts)"

text \<open>\<open>expand_template\<close>: group 0 is the whole match.\<close>

definition expand_template :: "titem list \<Rightarrow> re_match \<Rightarrow> string \<Rightarrow> string" where
  "expand_template template m s =
     concat (map (\<lambda>it. case it of
                     TLit c \<Rightarrow> [c]
                   | TGroup i \<Rightarrow> if i = 0 then take (m_end m - m_start m) (drop (m_start m) s)
                                 else m_group m i) template)"

text \<open>\<open>pattern.sub(repl, s, count=1)\<close>; \<open>None\<close> when the template raises.\<close>

definition pattern_sub :: "rx \<Rightarrow> string \<Rightarrow> string \<Rightarrow> string option" where
  "pattern_sub r repl s =
     (case parse_template repl (rx_groups r) of
        None \<Rightarrow> None
      | Some template \<Rightarrow>
          (case search r s of
             None \<Rightarrow> Some s
           | Some m \<Rightarrow> Some (take (m_start m) s @ expand_template template m s @ drop (m_end m) s)))"

section \<open>The loading clause\<close>

text \<open>
  \<^verbatim>\<open>(LOAD\s+CSV(?:\s+WITH\s+HEADERS)?\s+FROM\s+)'file:/([^']+)'(\s+AS\s+(\w+))\<close>,
  compiled with \<open>re.IGNORECASE\<close>.
\<close>

definition Str :: "string \<Rightarrow> rx" where
  "Str w = foldr (\<lambda>c r. Cat (Lit c) r) w Eps"

definition WS :: rx where
  "WS = OneOrMore Whitespace"

definition pattern_load_csv :: rx where
  "pattern_load_csv =
     Cat (Group 1
            (Cat (Str ''LOAD'') (Cat WS (Cat (Str ''CSV'')
              (Cat (Opt (Cat WS (Cat (Str ''WITH'') (Cat WS (Str ''HEADERS'')))))
                (Cat WS (Cat (Str ''FROM'') WS)))))))
       (Cat (Lit QUOTE) (Cat (Str ''file:/'')
         (Cat (Group 2 (OneOrMore (NotChar QUOTE)))
           (Cat (Lit QUOTE)
             (Group 3 (Cat WS (Cat (Str ''AS'') (Cat WS (Group 4 (OneOrMore WordChar))))))))))"

definition BATCH_SIZE :: nat where
  "BATCH_SIZE = 1000"

section \<open>Files\<close>

text \<open>
  A \<open>Path\<close> to a file is its (resolved) directory and its final component.  The file
  system maps a directory's path to its entries, in the order the operating system lists
  them; a path that exists but is no directory maps to \<open>NotDirectory\<close>, a path that does
  not exist to \<open>None\<close>.  A regular file either decodes as UTF-8 text or it does not.

  \<open>os.stat\<close> can fail with an error other than \<open>ENOENT\<close>, \<open>ENOTDIR\<close>, \<open>EBADF\<close> and
  \<open>ELOOP\<close>, which are the ones \<open>Path.is_dir\<close> and \<open>Path.is_file\<close> take for the answer
  \<open>False\<close>: \<open>ENAMETOOLONG\<close> for a component longer than the file system allows,
  \<open>EACCES\<close> for a directory that may not be searched.  The file system says where: a
  path maps to \<open>StatError\<close> with the name of the error, and a directory comes with the
  names whose lookup in it fails and the error of each.  The exception is then an
  \<open>OSError\<close> that is no \<open>FileNotFoundError\<close>.
\<close>

record path =
  parent :: string
  name :: string

datatype dir_entry = TextFile string | UndecodableFile | SubDirectory

type_synonym lookup_errors = "string \<Rightarrow> string option"

datatype fs_node =
    Directory "(string \<times> dir_entry) list" lookup_errors
  | NotDirectory
  | StatError string

type_synonym filesystem = "string \<Rightarrow> fs_node option"

datatype exn = FileNotFoundError | OSError string | ClientError string | OtherException string

text \<open>\<open>d.is_dir()\<close>: an answer, or the error of \<open>os.stat\<close> that it lets through.\<close>

definition is_dir :: "filesystem \<Rightarrow> string \<Rightarrow> exn + bool" where
  "is_dir fs d =
     (case fs d of
        Some (Directory es errs) \<Rightarrow> Inr True
      | Some (StatError e) \<Rightarrow> Inl (OSError e)
      | _ \<Rightarrow> Inr False)"

definition listdir :: "filesystem \<Rightarrow> string \<Rightarrow> string list" where
  "listdir fs d = (case fs d of Some (Directory es errs) \<Rightarrow> map fst es | _ \<Rightarrow> [])"

text \<open>
  \<open>(d / n).is_file()\<close> for a directory \<open>d\<close> and a single component \<open>n\<close>: with the empty
  component the path is \<open>d\<close> itself and with \<open>..\<close> its parent, neither a regular file.
  It is an answer, or the error of \<open>os.stat\<close> that it lets through.
\<close>

definition is_file :: "filesystem \<Rightarrow> string \<Rightarrow> string \<Rightarrow> exn + bool" where
  "is_file fs d n =
     (case fs d of
        Some (Directory es errs) \<Rightarrow>
          if n = [] \<or> n = ''..'' then Inr False
          else
            (case errs n of
               Some e \<Rightarrow> Inl (OSError e)
             | None \<Rightarrow>
                 (case map_of es n of
                    Some (TextFile t) \<Rightarrow> Inr True
                  | Some UndecodableFile \<Rightarrow> Inr True
                  | _ \<Rightarrow> Inr False))
      | Some (StatError e) \<Rightarrow> Inl (OSError e)
      | _ \<Rightarrow> Inr False)"

text \<open>\<open>p.read_text(encoding='utf-8')\<close>\<close>

definition read_text :: "filesystem \<Rightarrow> path \<Rightarrow> exn + string" where
  "read_text fs p =
     (case fs (parent p) of
        None \<Rightarrow> Inl FileNotFoundError
      | Some NotDirectory \<Rightarrow> Inl (OtherException ''NotADirectoryError'')
      | Some (StatError e) \<Rightarrow> Inl (OSError e)
      | Some (Directory es errs) \<Rightarrow>
          (case errs (name p) of
             Some e \<Rightarrow> Inl (OSError e)
           | None \<Rightarrow>
               (case map_of es (name p) of
                  None \<Rightarrow> Inl FileNotFoundError
                | Some SubDirectory \<Rightarrow> Inl (OtherException ''IsADirectoryError'')
                | Some UndecodableFile \<Rightarrow> Inl (OtherException ''UnicodeDecodeError'')
                | Some (TextFile t) \<Rightarrow> Inr t)))"

text \<open>
  \<open>Path(s).name\<close> on a POSIX path: the last component of \<open>s\<close> that is neither empty nor
  \<open>.\<close>, and the empty string when there is none.
\<close>

fun split_on :: "char \<Rightarrow> string \<Rightarrow> string list" where
  "split_on d [] = [[]]"
| "split_on d (c # cs) =
     (if c = d then [] # split_on d cs
      else (case split_on d cs of [] \<Rightarrow> [[c]] | w # ws \<Rightarrow> (c # w) # ws))"

definition path_name :: "string \<Rightarrow> string" where
  "path_name s =
     (case filter (\<lambda>x. x \<noteq> [] \<and> x \<noteq> ''.'') (split_on (CHR ''/'') s) of
        [] \<Rightarrow> []
      | x # xs \<Rightarrow> last (x # xs))"

text \<open>
  \<open>d.glob(pre + '*' + suf)\<close> lists the entries of \<open>d\<close> whose name starts with \<open>pre\<close> and
  ends with \<open>suf\<close>, without overlap of the two.
\<close>

definition glob_match :: "string \<Rightarrow> string \<Rightarrow> string \<Rightarrow> bool" where
  "glob_match pre suf n =
     (length pre + length suf \<le> length n \<and> take (length pre) n = pre
      \<and> drop (length n - length suf) n = suf)"

definition glob :: "filesystem \<Rightarrow> string \<Rightarrow> string \<Rightarrow> string \<Rightarrow> path list" where
  "glob fs d pre suf =
     map (\<lambda>n. \<lparr>parent = d, name = n\<rparr>) (filter (glob_match pre suf) (listdir fs d))"

section \<open>File discovery\<close>

text \<open>
  \<open>get_cypher_files\<close>.  \<open>sorted\<close> compares the paths, which lie in one directory, by
  their final component, in the code point order of strings.  Nothing catches what
  \<open>is_dir\<close> raises.
\<close>

definition get_cypher_files :: "filesystem \<Rightarrow> string \<Rightarrow> exn + (path list \<times> path list)" where
  "get_cypher_files fs output_dir =
     (case is_dir fs output_dir of
        Inl e \<Rightarrow> Inl e
      | Inr b \<Rightarrow>
          if \<not> b then Inl FileNotFoundError
          else
            let node_cypher_files = sort_key name (glob fs output_dir ''nodes_'' ''_cypher.csv'');
                edge_cypher_files = sort_key name (glob fs output_dir ''edges_'' ''_cypher.csv'')
            in Inr (node_cypher_files, edge_cypher_files))"

section \<open>The import-script rewriter\<close>

text \<open>
  Steps 2 to 4 of the loop body of \<open>import_online_neo4j\<close>: from the text of one script
  to the batched query, or to the reason there is none.  \<open>IsFileRaised\<close> is an
  exception of \<open>data_file_path.is_file()\<close> and \<open>SubRaised\<close> one of
  \<open>pattern_load_csv.sub\<close>, both caught by the last \<open>except\<close> clause of the loop;
  \<open>RematchFailed\<close> is the branch logged as an internal error, \<open>NoCoreLogic\<close> the script
  with nothing after its clause, which is skipped.
\<close>

datatype rewrite_result =
    MalformedScript
  | DataFileMissing
  | IsFileRaised exn
  | SubRaised
  | RematchFailed
  | NoCoreLogic
  | Batched string

definition batched_cypher :: "string \<Rightarrow> string \<Rightarrow> string \<Rightarrow> string \<Rightarrow> string" where
  "batched_cypher load_clause_full variable_name core_logic script_name =
     load_clause_full @ [NEWLINE]
     @ ''CALL {'' @ [NEWLINE]
     @ ''    WITH '' @ variable_name @ [NEWLINE]
     @ ''    '' @ indent_newlines (butlast core_logic) @ [NEWLINE]
     @ ''} IN TRANSACTIONS OF '' @ str_nat BATCH_SIZE @ '' ROWS'' @ [NEWLINE]
     @ ''RETURN 'Batch processed from '' @ script_name @ [QUOTE]"

definition rewrite :: "filesystem \<Rightarrow> path \<Rightarrow> string \<Rightarrow> rewrite_result" where
  "rewrite fs cypher_file_path cypher_content =
     (case search pattern_load_csv (butlast cypher_content) of
        None \<Rightarrow> MalformedScript
      | Some match \<Rightarrow>
          let load_clause_prefix = m_group match 1;
              relative_data_filename = m_group match 2;
              load_clause_suffix = m_group match 3;
              variable_name = m_group match 4;
              data_file_name = path_name relative_data_filename
          in
            (case is_file fs (parent cypher_file_path) data_file_name of
               Inl e \<Rightarrow> IsFileRaised e
             | Inr data_file_is_file \<Rightarrow>
                 if \<not> data_file_is_file then DataFileMissing
                 else
                   let data_file_abs_uri = ''file:///'' @ data_file_name in
                   (case pattern_sub pattern_load_csv
                           (load_clause_prefix @ [QUOTE] @ data_file_abs_uri @ [QUOTE]
                              @ load_clause_suffix)
                           cypher_content of
                      None \<Rightarrow> SubRaised
                    | Some modified_cypher \<Rightarrow>
                        (case search pattern_load_csv modified_cypher of
                           None \<Rightarrow> RematchFailed
                         | Some match_modified \<Rightarrow>
                             let load_clause_end_index = m_end match_modified;
                                 load_clause_full = take load_clause_end_index modified_cypher;
                                 core_logic = strip (drop load_clause_end_index modified_cypher)
                             in
                               if core_logic = [] then NoCoreLogic
                               else Batched (batched_cypher load_clause_full variable_name
                                               core_logic (name cypher_file_path))))))"

section \<open>The import driver\<close>

text \<open>
  The database behind the driver is a state of type \<open>'db\<close>; \<open>session.run(q).consume()\<close>
  takes it to the next state and either returns a summary (\<open>None\<close>) or raises.  The loop of
  \<open>import_online_neo4j\<close> keeps \<open>import_errors\<close> and \<open>processed_files\<close>; the model adds
  the sequence of scripts the loop has visited and of queries it has sent.
\<close>

type_synonym 'db runner = "'db \<Rightarrow> string \<Rightarrow> exn option \<times> 'db"

datatype event = Visit path | Execute path

record 'db import_state =
  import_errors :: bool
  processed_files :: nat
  events :: "event list"
  database :: 'db

definition constraint_query :: string where
  "constraint_query =
     ''CREATE CONSTRAINT JoernNodeIdConstraint IF NOT EXISTS FOR (n:JoernNode) REQUIRE n.id IS UNIQUE''"

text \<open>One iteration of the loop, the three \<open>except\<close> clauses included.\<close>

definition process_cypher_file ::
  "filesystem \<Rightarrow> 'db runner \<Rightarrow> 'db import_state \<Rightarrow> path \<Rightarrow> 'db import_state" where
  "process_cypher_file fs run st0 cypher_file_path =
     (let st = st0\<lparr>events := events st0 @ [Visit cypher_file_path]\<rparr> in
      case read_text fs cypher_file_path of
        Inl e \<Rightarrow> st\<lparr>import_errors := True\<rparr>
      | Inr cypher_content \<Rightarrow>
          if strip cypher_content = [] then st
          else
            (case rewrite fs cypher_file_path cypher_content of
               MalformedScript \<Rightarrow> st\<lparr>import_errors := True\<rparr>
             | DataFileMissing \<Rightarrow> st\<lparr>import_errors := True\<rparr>
             | IsFileRaised e \<Rightarrow> st\<lparr>import_errors := True\<rparr>
             | SubRaised \<Rightarrow> st\<lparr>import_errors := True\<rparr>
             | RematchFailed \<Rightarrow> st\<lparr>import_errors := True\<rparr>
             | NoCoreLogic \<Rightarrow> st
             | Batched query \<Rightarrow>
                 (case run (database st) query of
                    (None, db') \<Rightarrow>
                      st\<lparr>processed_files := processed_files st + 1,
                         events := events st @ [Execute cypher_file_path],
                         database := db'\<rparr>
                  | (Some e, db') \<Rightarrow>
                      st\<lparr>import_errors := True,
                         events := events st @ [Execute cypher_file_path],
                         database := db'\<rparr>)))"

definition import_loop ::
  "filesystem \<Rightarrow> 'db runner \<Rightarrow> 'db import_state \<Rightarrow> path list \<Rightarrow> 'db import_state" where
  "import_loop fs run st all_cypher_files = foldl (process_cypher_file fs run) st all_cypher_files"

text \<open>The value \<open>import_online_neo4j\<close> returns, from the state the loop ends in.\<close>

definition import_verdict :: "'db import_state \<Rightarrow> path list \<Rightarrow> path list \<Rightarrow> bool" where
  "import_verdict st node_cypher_files edge_cypher_files =
     (if import_errors st then False
      else if processed_files st = 0 \<and> (node_cypher_files \<noteq> [] \<or> edge_cypher_files \<noteq> []) then False
      else if processed_files st = 0 \<and> \<not> (node_cypher_files \<noteq> [] \<or> edge_cypher_files \<noteq> []) then True
      else True)"

definition import_final_state ::
  "filesystem \<Rightarrow> 'db runner \<Rightarrow> 'db \<Rightarrow> path list \<Rightarrow> path list \<Rightarrow> 'db import_state" where
  "import_final_state fs run db0 node_cypher_files edge_cypher_files =
     (let db1 = snd (run db0 constraint_query);
          all_cypher_files = node_cypher_files @ edge_cypher_files
      in import_loop fs run
           \<lparr>import_errors = False, processed_files = 0, events = [], database = db1\<rparr>
           all_cypher_files)"

definition import_online_neo4j ::
  "filesystem \<Rightarrow> 'db runner \<Rightarrow> 'db \<Rightarrow> path list \<Rightarrow> path list \<Rightarrow> bool" where
  "import_online_neo4j fs run db0 node_cypher_files edge_cypher_files =
     import_verdict (import_final_state fs run db0 node_cypher_files edge_cypher_files)
       node_cypher_files edge_cypher_files"

text \<open>
  What the log of the loop says of one script, met with the database in the state
  \<open>db\<close>: it is skipped with a warning (its text is blank, or nothing follows its loading
  clause), it fails with an error line (one of the \<open>except\<close> clauses, or a branch that
  sets \<open>import_errors\<close>), or its query is executed and the summary consumed
  (\<open>Successfully executed batch\<close>).  \<open>script_result\<close> pairs it with the database the
  script leaves, and \<open>outcomes\<close> lists it for the scripts of a run, one after the other.
\<close>

datatype outcome = Skipped | Failed | Processed

definition script_result :: "filesystem \<Rightarrow> 'db runner \<Rightarrow> 'db \<Rightarrow> path \<Rightarrow> outcome \<times> 'db" where
  "script_result fs run db cypher_file_path =
     (case read_text fs cypher_file_path of
        Inl e \<Rightarrow> (Failed, db)
      | Inr cypher_content \<Rightarrow>
          if strip cypher_content = [] then (Skipped, db)
          else
            (case rewrite fs cypher_file_path cypher_content of
               NoCoreLogic \<Rightarrow> (Skipped, db)
             | Batched query \<Rightarrow>
                 (case run db query of
                    (None, db') \<Rightarrow> (Processed, db')
                  | (Some e, db') \<Rightarrow> (Failed, db'))
             | _ \<Rightarrow> (Failed, db)))"

fun outcomes :: "filesystem \<Rightarrow> 'db runner \<Rightarrow> 'db \<Rightarrow> path list \<Rightarrow> outcome list" where
  "outcomes fs run db [] = []"
| "outcomes fs run db (p # ps) =
     fst (script_result fs run db p) # outcomes fs run (snd (script_result fs run db p)) ps"

text \<open>The scripts visited and the scripts whose query was sent, in order.\<close>

fun visited :: "event list \<Rightarrow> path list" where
  "visited [] = []"
| "visited (Visit p # es) = p # visited es"
| "visited (Execute p # es) = visited es"

fun executed :: "event list \<Rightarrow> path list" where
  "executed [] = []"
| "executed (Visit p # es) = executed es"
| "executed (Execute p # es) = p # executed es"

section \<open>The program\<close>

text \<open>
  \<open>main\<close>.  The namespace \<open>parse_args\<close> returns has one attribute for each
  \<open>add_argument\<close>; reading an attribute it does not have raises \<open>AttributeError\<close>.  An
  exception that nothing catches ends the process with status 1.  The command line is
  given as the values of its options (\<open>None\<close>: the option is absent); what the program
  finds outside itself is the \<open>world\<close>.
\<close>

datatype exit_status = Exit nat | Uncaught string

fun exit_code :: "exit_status \<Rightarrow> nat" where
  "exit_code (Exit n) = n"
| "exit_code (Uncaught e) = 1"

type_synonym namespace = "(string \<times> string option) list"

record command_line =
  cli_input_path :: string
  cli_output_dir :: "string option"
  cli_jvm_mem :: "string option"
  cli_neo4j_uri :: "string option"
  cli_neo4j_user :: "string option"
  cli_neo4j_password :: "string option"
  cli_neo4j_database :: "string option"
  cli_neo4j_import_dir :: "string option"

datatype 'db connection = Connected 'db | ConnectRaises string

record 'db world =
  getenv :: "string \<Rightarrow> string option"
  path_exists :: "string \<Rightarrow> bool"
  path_isdir :: "string \<Rightarrow> bool"
  path_isfile :: "string \<Rightarrow> bool"
  abspath :: "string \<Rightarrow> string"
  joern_parse_ok :: bool
  rmtree_raises :: bool
  joern_export_ok :: bool
  copy_step_raises :: bool
  exported :: filesystem
  connect :: "'db connection"
  session_run :: "'db runner"

definition DEFAULT_JVM_MEM :: string where
  "DEFAULT_JVM_MEM = ''-J-Xmx4G''"

definition option_or :: "string option \<Rightarrow> string \<Rightarrow> string" where
  "option_or v d = (case v of Some x \<Rightarrow> x | None \<Rightarrow> d)"

definition parse_args :: "command_line \<Rightarrow> (string \<Rightarrow> string option) \<Rightarrow> namespace" where
  "parse_args cl env =
     [(''input_path'', Some (cli_input_path cl)),
      (''output_dir'', Some (option_or (cli_output_dir cl) ''joern_neo4j_output'')),
      (''jvm_mem'', Some (option_or (cli_jvm_mem cl) DEFAULT_JVM_MEM)),
      (''neo4j_uri'',
         Some (option_or (cli_neo4j_uri cl) (option_or (env ''NEO4J_URI'') ''bolt://localhost:7687''))),
      (''neo4j_user'', Some (option_or (cli_neo4j_user cl) (option_or (env ''NEO4J_USER'') ''neo4j''))),
      (''neo4j_password'', cli_neo4j_password cl),
      (''neo4j_database'',
         Some (option_or (cli_neo4j_database cl) (option_or (env ''NEO4J_DATABASE'') ''neo4j''))),
      (''neo4j_import_dir'',
         Some (option_or (cli_neo4j_import_dir cl)
                 (option_or (env ''NEO4J_IMPORT_DIR'') ''joern_neo4j_import'')))]"

text \<open>\<open>args.a\<close>, and \<open>args.a = v\<close>.\<close>

definition with_attr :: "namespace \<Rightarrow> string \<Rightarrow> (string option \<Rightarrow> exit_status) \<Rightarrow> exit_status" where
  "with_attr args a k = (case map_of args a of None \<Rightarrow> Uncaught ''AttributeError'' | Some v \<Rightarrow> k v)"

definition setattr :: "namespace \<Rightarrow> string \<Rightarrow> string option \<Rightarrow> namespace" where
  "setattr args a v = (a, v) # args"

text \<open>\<open>not v\<close> for a value that is a string or \<open>None\<close>.\<close>

definition falsy :: "string option \<Rightarrow> bool" where
  "falsy v = (v = None \<or> v = Some [])"

text \<open>Steps 1 to 3 of \<open>main\<close>, from \<open>Define Paths\<close> to the final status.\<close>

definition run_pipeline :: "namespace \<Rightarrow> 'db world \<Rightarrow> exit_status" where
  "run_pipeline args w =
     with_attr args ''output_dir'' (\<lambda>output_dir.
     let abs_output_dir = abspath w (option_or output_dir []);
         csv_export_dir = abs_output_dir @ ''/neo4j_csv'';
         output_dir_path = csv_export_dir
     in
     with_attr args ''neo4j_import_dir'' (\<lambda>neo4j_import_dir.
     with_attr args ''input_path'' (\<lambda>input_path.
     with_attr args ''jvm_mem'' (\<lambda>jvm_mem.
     if \<not> joern_parse_ok w then Exit 1
     else if path_exists w csv_export_dir \<and> rmtree_raises w then Exit 1
     else if \<not> joern_export_ok w then Exit 1
     else if copy_step_raises w then Exit 1
     else
     with_attr args ''neo4j_uri'' (\<lambda>neo4j_uri.
     with_attr args ''neo4j_user'' (\<lambda>neo4j_user.
     with_attr args ''neo4j_database'' (\<lambda>neo4j_database.
     (case get_cypher_files (exported w) output_dir_path of
        Inl e \<Rightarrow> Exit 1
      | Inr (node_cypher_files, edge_cypher_files) \<Rightarrow>
          if node_cypher_files = [] \<and> edge_cypher_files = [] then Exit 0
          else
            with_attr args ''neo4j_password'' (\<lambda>neo4j_password.
            (case connect w of
               ConnectRaises e \<Rightarrow> Exit 1
             | Connected db0 \<Rightarrow>
                 let import_successful =
                       import_online_neo4j (exported w) (session_run w) db0
                         node_cypher_files edge_cypher_files
                 in if import_successful then Exit 0 else Exit 1))))))))))"

definition main :: "command_line \<Rightarrow> 'db world \<Rightarrow> exit_status" where
  "main cl w =
     (let args = parse_args cl (getenv w) in
      with_attr args ''neo4j_password'' (\<lambda>neo4j_password.
      let args = (if falsy neo4j_password
                  then setattr args ''neo4j_password'' (getenv w ''NEO4J_PASSWORD'')
                  else args)
      in
      if falsy neo4j_password \<and> falsy (getenv w ''NEO4J_PASSWORD'') then Exit 1
      else
      with_attr args ''input_path'' (\<lambda>input_path.
      if \<not> path_exists w (option_or input_path []) then Exit 1
      else if \<not> path_isdir w (option_or input_path []) \<and> \<not> path_isfile w (option_or input_path [])
      then Exit 1
      else
      with_attr args ''neo4j_password'' (\<lambda>neo4j_password.
      if falsy neo4j_password then Exit 1
      else
      with_attr args ''neo4j_url'' (\<lambda>neo4j_url.
      if falsy neo4j_url then Exit 1
      else run_pipeline args w)))))"

section \<open>The loading clause, scanned from left to right\<close>

text \<open>
  The pattern of the loading clause has no choice that a later failure could revise
  to a success: each run of white space, of word characters or of characters other than
  the quote is followed by something its class excludes.  The functions below read the
  clause deterministically; they take no part in the model of the program and serve the
  proofs about \<open>rx_match\<close> on \<open>pattern_load_csv\<close>, which is shown to compute
  the same (\<open>match_here_clause_at\<close>).

  \<open>skip_lit w s\<close> reads the literal \<open>w\<close>, case ignored, at the start of \<open>s\<close> and
  returns the rest; \<open>skip_class1 C s\<close> reads the longest non-empty run of the class.
\<close>

fun skip_lit :: "string \<Rightarrow> string \<Rightarrow> string option" where
  "skip_lit [] s = Some s"
| "skip_lit (p # ps) [] = None"
| "skip_lit (p # ps) (c # cs) = (if ieq p c then skip_lit ps cs else None)"

definition skip_class1 :: "charclass \<Rightarrow> string \<Rightarrow> string option" where
  "skip_class1 C s =
     (case s of [] \<Rightarrow> None
      | c # cs \<Rightarrow> if in_class C c then Some (dropWhile (in_class C) cs) else None)"

text \<open>
  \<^verbatim>\<open>FROM\s+\<close>, the first group \<^verbatim>\<open>LOAD\s+CSV(?:\s+WITH\s+HEADERS)?\s+FROM\s+\<close> (and
  what follows its first letter), the third group \<^verbatim>\<open>\s+AS\s+(\w+)\<close> with the fourth
  inside it, and the whole clause with its four groups and the text after it.
\<close>

definition scan_from :: "string \<Rightarrow> string option" where
  "scan_from s = Option.bind (skip_lit ''FROM'' s) (skip_class1 Whitespace)"

definition scan_prefix :: "string \<Rightarrow> string option" where
  "scan_prefix s =
     Option.bind (skip_lit ''LOAD'' s) (\<lambda>a.
     Option.bind (skip_class1 Whitespace a) (\<lambda>b.
     Option.bind (skip_lit ''CSV'' b) (\<lambda>c.
     Option.bind (skip_class1 Whitespace c) (\<lambda>d.
       case skip_lit ''WITH'' d of
         Some e \<Rightarrow>
           Option.bind (skip_class1 Whitespace e) (\<lambda>f.
           Option.bind (skip_lit ''HEADERS'' f) (\<lambda>h.
           Option.bind (skip_class1 Whitespace h) scan_from))
       | None \<Rightarrow> scan_from d))))"

definition scan_after_L :: "string \<Rightarrow> string option" where
  "scan_after_L s =
     Option.bind (skip_lit ''OAD'' s) (\<lambda>a.
     Option.bind (skip_class1 Whitespace a) (\<lambda>b.
     Option.bind (skip_lit ''CSV'' b) (\<lambda>c.
     Option.bind (skip_class1 Whitespace c) (\<lambda>d.
       case skip_lit ''WITH'' d of
         Some e \<Rightarrow>
           Option.bind (skip_class1 Whitespace e) (\<lambda>f.
           Option.bind (skip_lit ''HEADERS'' f) (\<lambda>h.
           Option.bind (skip_class1 Whitespace h) scan_from))
       | None \<Rightarrow> scan_from d))))"

definition scan_suffix :: "string \<Rightarrow> (string \<times> string \<times> string) option" where
  "scan_suffix s =
     Option.bind (skip_class1 Whitespace s) (\<lambda>a.
     Option.bind (skip_lit ''AS'' a) (\<lambda>b.
     Option.bind (skip_class1 Whitespace b) (\<lambda>c.
     Option.bind (skip_class1 WordChar c) (\<lambda>d.
       Some (take (length s - length d) s, take (length c - length d) c, d)))))"

definition clause_at :: "string \<Rightarrow> (string \<times> string \<times> string \<times> string \<times> string) option" where
  "clause_at s =
     Option.bind (scan_prefix s) (\<lambda>a.
     Option.bind (skip_lit (QUOTE # ''file:/'') a) (\<lambda>b.
     Option.bind (skip_class1 (NotChar QUOTE) b) (\<lambda>c.
     Option.bind (skip_lit [QUOTE] c) (\<lambda>d.
     Option.bind (scan_suffix d) (\<lambda>(g3, g4, rest).
       Some (take (length s - length a) s, take (length b - length c) b, g3, g4, rest))))))"

text \<open>
  A continuation fails on a class when it fails on every text that starts with a
  character of the class: then the run before it cannot be shortened to any effect.
\<close>

definition fails_on :: "charclass \<Rightarrow> (string \<Rightarrow> caps \<Rightarrow> 'r option) \<Rightarrow> bool" where
  "fails_on C k = (\<forall>c cs g. in_class C c \<longrightarrow> k (c # cs) g = None)"

text \<open>
  The code point of a character after \<open>ascii_lower\<close>.
\<close>

definition lower_code :: "char \<Rightarrow> nat" where
  "lower_code c = (if 65 \<le> (of_char c :: nat) \<and> (of_char c :: nat) \<le> 90 then of_char c + 32 else of_char c)"

text \<open>
  A character \<open>l\<close> is a barrier of a scanner that never reads past it, and a scanner
  eats \<open>P\<close> when every character it reads satisfies \<open>P\<close>.
\<close>

definition barrier :: "char \<Rightarrow> (string \<Rightarrow> string option) \<Rightarrow> bool" where
  "barrier l f = (\<forall>b X. f (b @ l # X) = map_option (\<lambda>b'. b' @ l # X) (f b))"

definition eats :: "(char \<Rightarrow> bool) \<Rightarrow> (string \<Rightarrow> string option) \<Rightarrow> bool" where
  "eats P f = (\<forall>s a. f s = Some a \<longrightarrow> (\<exists>x. s = x @ a \<and> (\<forall>c \<in> set x. P c)))"

abbreviation inner :: "char \<Rightarrow> bool" where
  "inner c \<equiv> c \<noteq> QUOTE \<and> \<not> ieq (CHR ''L'') c"

abbreviation plain :: "char \<Rightarrow> bool" where
  "plain c \<equiv> c \<noteq> BACKSLASH"

text \<open>
  \<open>run1 C x\<close>: \<open>x\<close> is a non-empty run of the class; \<open>stops C a\<close>: a run of the class
  cannot go on into \<open>a\<close>; \<open>suffix_shape g3 g4\<close>: \<open>g3\<close> is a text of the third group
  whose fourth group is \<open>g4\<close>.
\<close>

definition run1 :: "charclass \<Rightarrow> string \<Rightarrow> bool" where
  "run1 C x = (x \<noteq> [] \<and> (\<forall>c \<in> set x. in_class C c))"

definition stops :: "charclass \<Rightarrow> string \<Rightarrow> bool" where
  "stops C a = (case a of [] \<Rightarrow> True | c # cs \<Rightarrow> \<not> in_class C c)"

definition suffix_shape :: "string \<Rightarrow> string \<Rightarrow> bool" where
  "suffix_shape g3 g4 =
     (\<exists>x1 x2 x3. g3 = x1 @ x2 @ x3 @ g4 \<and> run1 Whitespace x1 \<and> list_all2 ieq ''AS'' x2
        \<and> run1 Whitespace x3 \<and> run1 WordChar g4)"

section \<open>Example inputs\<close>

text \<open>
  A directory as the export step leaves it, with one script that has no loading clause,
  one well-formed script, one empty script and a data file; a database that accepts
  every query and records it.
\<close>

definition edges_x_text :: string where
  "edges_x_text = ''LOAD CSV FROM 'file:/edges_x_data.csv' AS line\<newline>CREATE (a);\<newline>''"

definition example_dir :: "(string \<times> dir_entry) list" where
  "example_dir =
     [(''nodes_b_cypher.csv'', TextFile ''MATCH (n) RETURN n;''),
      (''edges_x_cypher.csv'', TextFile edges_x_text),
      (''nodes_a_cypher.csv'', TextFile []),
      (''edges_x_data.csv'', TextFile ''1,2'')]"

definition no_errors :: lookup_errors where
  "no_errors n = None"

definition example_fs :: filesystem where
  "example_fs d = (if d = ''/out'' then Some (Directory example_dir no_errors) else None)"

definition other_fs :: filesystem where
  "other_fs d =
     (if d = ''/out''
      then Some (Directory [(''unrelated'', SubDirectory), (''edges_x_data.csv'', TextFile ''9,9'')]
                   no_errors)
      else None)"

definition example_run :: "string list runner" where
  "example_run db query = (None, db @ [query])"

definition nodes_a :: path where
  "nodes_a = \<lparr>parent = ''/out'', name = ''nodes_a_cypher.csv''\<rparr>"

definition nodes_b :: path where
  "nodes_b = \<lparr>parent = ''/out'', name = ''nodes_b_cypher.csv''\<rparr>"

definition edges_x :: path where
  "edges_x = \<lparr>parent = ''/out'', name = ''edges_x_cypher.csv''\<rparr>"

definition edges_x_query :: string where
  "edges_x_query =
     ''LOAD CSV FROM 'file:///edges_x_data.csv' AS line\<newline>CALL {\<newline>    WITH line\<newline>    CREATE (a)\<newline>} IN TRANSACTIONS OF 1000 ROWS\<newline>RETURN 'Batch processed from edges_x_cypher.csv'' @ [QUOTE]"

definition example_command_line :: command_line where
  "example_command_line =
     \<lparr>cli_input_path = ''src'', cli_output_dir = None, cli_jvm_mem = None,
      cli_neo4j_uri = None, cli_neo4j_user = None, cli_neo4j_password = Some ''secret'',
      cli_neo4j_database = None, cli_neo4j_import_dir = None\<rparr>"

definition example_world :: "string list world" where
  "example_world =
     \<lparr>getenv = (\<lambda>v. None),
      path_exists = (\<lambda>p. p = ''src''),
      path_isdir = (\<lambda>p. p = ''src''),
      path_isfile = (\<lambda>p. False),
      abspath = (\<lambda>p. ''/work/'' @ p),
      joern_parse_ok = True,
      rmtree_raises = False,
      joern_export_ok = True,
      copy_step_raises = False,
      exported = (\<lambda>d. if d = ''/work/joern_neo4j_output/neo4j_csv''
                       then Some (Directory [(''edges_x_cypher.csv'', TextFile edges_x_text),
                                             (''edges_x_data.csv'', TextFile ''1,2'')]
                                    no_errors)
                       else None),
      connect = Connected [],
      session_run = example_run\<rparr>"

definition no_last_terminator_text :: string where
  "no_last_terminator_text = ''LOAD CSV FROM 'file:/edges_x_data.csv' AS line\<newline>RETURN 1''"

text \<open>
  A script that ends with its loading clause, and a directory whose data files have a
  backslash in their names (the name of the first is a backslash followed by \<open>047\<close>),
  with the scripts that reference them.
\<close>

definition no_body_text :: string where
  "no_body_text = ''LOAD CSV FROM 'file:/edges_x_data.csv' AS line\<newline>''"

definition octal_name :: string where
  "octal_name = [BACKSLASH] @ ''047''"

definition letter_name :: string where
  "letter_name = ''a'' @ [BACKSLASH] @ ''d.csv''"

definition octal_name_text :: string where
  "octal_name_text = ''LOAD CSV FROM 'file:/'' @ octal_name @ ''' AS line\<newline>RETURN 1;''"

definition letter_name_text :: string where
  "letter_name_text = ''LOAD CSV FROM 'file:/'' @ letter_name @ ''' AS line\<newline>RETURN 1;''"

definition backslash_fs :: filesystem where
  "backslash_fs d =
     (if d = ''/out''
      then Some (Directory [(''edges_x_cypher.csv'', TextFile octal_name_text),
                            (''edges_y_cypher.csv'', TextFile letter_name_text),
                            (octal_name, TextFile ''1,2''),
                            (letter_name, TextFile ''3,4'')]
                   no_errors)
      else None)"

text \<open>
  The same script under another name, and a file system as Linux presents it to
  \<open>pathlib\<close> up to Python 3.12: \<open>os.stat\<close> fails with \<open>ENAMETOOLONG\<close> on a path with a
  component of more than 255 bytes.  A script that references a data file with such a
  name, and a directory with such a name.
\<close>

definition edges_y :: path where
  "edges_y = \<lparr>parent = ''/out'', name = ''edges_y_cypher.csv''\<rparr>"

definition NAME_MAX :: nat where
  "NAME_MAX = 255"

definition name_too_long :: lookup_errors where
  "name_too_long n = (if NAME_MAX < length n then Some ''ENAMETOOLONG'' else None)"

definition long_name :: string where
  "long_name = replicate 300 (CHR ''a'')"

definition long_name_text :: string where
  "long_name_text = ''LOAD CSV FROM 'file:/'' @ long_name @ ''' AS line\<newline>RETURN 1;''"

definition long_dir :: string where
  "long_dir = ''/'' @ long_name"

definition name_max_fs :: filesystem where
  "name_max_fs d =
     (if list_ex (\<lambda>c. NAME_MAX < length c) (split_on (CHR ''/'') d) then Some (StatError ''ENAMETOOLONG'')
      else if d = ''/out''
      then Some (Directory [(''edges_x_cypher.csv'', TextFile long_name_text)] name_too_long)
      else None)"

section \<open>File discovery: properties\<close>

lemma map_insort_key: "map f (insort_key f x ys) = insort (f x) (map f ys)"
  by (induction ys) auto

lemma map_sort_key: "map f (sort_key f xs) = sort (map f xs)"
  by (induction xs) (auto simp: map_insort_key)

lemma name_glob: "map name (glob fs d pre suf) = filter (glob_match pre suf) (listdir fs d)"
  by (simp add: glob_def comp_def)

lemma parent_glob: "q \<in> set (glob fs d pre suf) \<Longrightarrow> parent q = d"
  by (auto simp: glob_def)

text \<open>
  \<open>get_cypher_files\<close> raises \<open>FileNotFoundError\<close> exactly when the path does not exist
  or is not a directory and \<open>os.stat\<close> says so; when \<open>os.stat\<close> fails otherwise, it raises
  that \<open>OSError\<close>; on a directory it returns the entries that follow the node convention
  and those that follow the edge convention, each list sorted by name in the
  lexicographic order of strings, all of them paths in that directory.
\<close>

lemma get_cypher_files_cases:
  "(get_cypher_files fs d = Inl FileNotFoundError \<longleftrightarrow> (fs d = None \<or> fs d = Some NotDirectory))
   \<and> (\<forall>e. fs d = Some (StatError e) \<longrightarrow> get_cypher_files fs d = Inl (OSError e))
   \<and> (\<forall>es errs. fs d = Some (Directory es errs) \<longrightarrow>
        (\<exists>ns eds. get_cypher_files fs d = Inr (ns, eds)
           \<and> map name ns = sort (filter (glob_match ''nodes_'' ''_cypher.csv'') (map fst es))
           \<and> map name eds = sort (filter (glob_match ''edges_'' ''_cypher.csv'') (map fst es))
           \<and> sorted (map name ns) \<and> sorted (map name eds)
           \<and> (\<forall>q \<in> set (ns @ eds). parent q = d)))"
proof (intro conjI allI impI)
  show "get_cypher_files fs d = Inl FileNotFoundError \<longleftrightarrow> (fs d = None \<or> fs d = Some NotDirectory)"
    by (auto simp: get_cypher_files_def is_dir_def Let_def split: option.splits fs_node.splits)
next
  fix e assume "fs d = Some (StatError e)"
  then show "get_cypher_files fs d = Inl (OSError e)"
    by (simp add: get_cypher_files_def is_dir_def)
next
  fix es errs assume d: "fs d = Some (Directory es errs)"
  let ?ns = "sort_key name (glob fs d ''nodes_'' ''_cypher.csv'')"
  let ?eds = "sort_key name (glob fs d ''edges_'' ''_cypher.csv'')"
  have l: "listdir fs d = map fst es" using d by (simp add: listdir_def)
  have "get_cypher_files fs d = Inr (?ns, ?eds)"
    using d by (simp add: get_cypher_files_def is_dir_def Let_def)
  moreover have "map name ?ns = sort (filter (glob_match ''nodes_'' ''_cypher.csv'') (map fst es))"
    by (simp only: map_sort_key name_glob l)
  moreover have "map name ?eds = sort (filter (glob_match ''edges_'' ''_cypher.csv'') (map fst es))"
    by (simp only: map_sort_key name_glob l)
  moreover have "sorted (map name ?ns)" "sorted (map name ?eds)"
    by (simp_all only: sorted_sort_key)
  moreover have "\<forall>q \<in> set (?ns @ ?eds). parent q = d"
    by (auto dest: parent_glob)
  ultimately show "\<exists>ns eds. get_cypher_files fs d = Inr (ns, eds)
           \<and> map name ns = sort (filter (glob_match ''nodes_'' ''_cypher.csv'') (map fst es))
           \<and> map name eds = sort (filter (glob_match ''edges_'' ''_cypher.csv'') (map fst es))
           \<and> sorted (map name ns) \<and> sorted (map name eds)
           \<and> (\<forall>q \<in> set (ns @ eds). parent q = d)"
    by blast
qed

lemma example_discovery:
  "get_cypher_files example_fs ''/out'' = Inr ([nodes_a, nodes_b], [edges_x])"
  by code_simp

lemma split_on_no_separator: "d \<notin> set s \<Longrightarrow> split_on d s = [s]"
  by (induction s) auto

lemma long_dir_components: "split_on (CHR ''/'') long_dir = [[], long_name]"
proof -
  have "CHR ''/'' \<notin> set long_name" by (simp add: long_name_def)
  then show ?thesis by (simp add: long_dir_def split_on_no_separator)
qed

text \<open>
  Claim C7.  The claim is that \<open>get_cypher_files\<close> fails with \<open>FileNotFoundError\<close>
  whenever the directory does not exist.  On a path with a component of 300 characters
  no directory exists, \<open>is_dir\<close> raises the \<open>OSError\<close> of \<open>os.stat\<close> instead of answering,
  and \<open>get_cypher_files\<close>, which catches nothing, raises that error and not the
  \<open>FileNotFoundError\<close> its docstring announces.
\<close>

theorem discovery_raises_os_error:
  "name_max_fs long_dir = Some (StatError ''ENAMETOOLONG'')
   \<and> is_dir name_max_fs long_dir = Inl (OSError ''ENAMETOOLONG'')
   \<and> get_cypher_files name_max_fs long_dir = Inl (OSError ''ENAMETOOLONG'')
   \<and> get_cypher_files name_max_fs long_dir \<noteq> Inl FileNotFoundError"
proof -
  have "NAME_MAX < length long_name" by (simp add: NAME_MAX_def long_name_def)
  then have d: "name_max_fs long_dir = Some (StatError ''ENAMETOOLONG'')"
    by (simp add: name_max_fs_def long_dir_components)
  then show ?thesis by (simp add: get_cypher_files_def is_dir_def)
qed

section \<open>The import driver: properties\<close>

lemma process_events:
  "\<exists>xs. events (process_cypher_file fs run st p) = events st @ Visit p # xs
        \<and> (xs = [] \<or> xs = [Execute p])"
  by (auto simp: process_cypher_file_def Let_def
      split: sum.splits rewrite_result.splits prod.splits option.splits)

lemma import_loop_Nil [simp]: "import_loop fs run st [] = st"
  by (simp add: import_loop_def)

lemma import_loop_Cons [simp]:
  "import_loop fs run st (p # ps) = import_loop fs run (process_cypher_file fs run st p) ps"
  by (simp add: import_loop_def)

lemma import_loop_append:
  "import_loop fs run st (ps @ qs) = import_loop fs run (import_loop fs run st ps) qs"
  by (simp add: import_loop_def)

lemma visited_append [simp]: "visited (xs @ ys) = visited xs @ visited ys"
  by (induction xs rule: visited.induct) auto

lemma executed_append [simp]: "executed (xs @ ys) = executed xs @ executed ys"
  by (induction xs rule: executed.induct) auto

lemma import_loop_events:
  "\<exists>tr. events (import_loop fs run st ps) = events st @ tr \<and> visited tr = ps
        \<and> subseq (executed tr) ps"
proof (induction ps arbitrary: st)
  case Nil
  show ?case by simp
next
  case (Cons p ps)
  obtain xs where xs: "events (process_cypher_file fs run st p) = events st @ Visit p # xs"
    "xs = [] \<or> xs = [Execute p]"
    using process_events by blast
  obtain tr where tr: "events (import_loop fs run (process_cypher_file fs run st p) ps)
      = events (process_cypher_file fs run st p) @ tr" "visited tr = ps" "subseq (executed tr) ps"
    using Cons.IH by blast
  have "events (import_loop fs run st (p # ps)) = events st @ (Visit p # xs @ tr)"
    using xs tr by simp
  moreover have "visited (Visit p # xs @ tr) = p # ps"
    using xs tr by auto
  moreover have "subseq (executed (Visit p # xs @ tr)) (p # ps)"
    using xs tr by auto
  ultimately show ?case by blast
qed

text \<open>
  Claim C8.  The sequence of events of a run of \<open>import_online_neo4j\<close> is a node phase
  followed by an edge phase: in the node phase exactly the node scripts are visited, in
  their order, and only node scripts are executed; in the edge phase exactly the edge
  scripts are visited, in their order, and only edge scripts are executed.  So the loop
  visits the node list and then the edge list, and no edge script is executed before
  every node script has been visited.
\<close>

theorem node_scripts_before_edge_scripts:
  "\<exists>tn te. events (import_final_state fs run db0 node_cypher_files edge_cypher_files) = tn @ te
     \<and> visited tn = node_cypher_files \<and> subseq (executed tn) node_cypher_files
     \<and> visited te = edge_cypher_files \<and> subseq (executed te) edge_cypher_files"
proof -
  let ?st0 = "\<lparr>import_errors = False, processed_files = 0, events = [],
               database = snd (run db0 constraint_query)\<rparr>"
  obtain tn where tn: "events (import_loop fs run ?st0 node_cypher_files) = events ?st0 @ tn"
      "visited tn = node_cypher_files" "subseq (executed tn) node_cypher_files"
    using import_loop_events by blast
  obtain te where te:
      "events (import_loop fs run (import_loop fs run ?st0 node_cypher_files) edge_cypher_files)
        = events (import_loop fs run ?st0 node_cypher_files) @ te"
      "visited te = edge_cypher_files" "subseq (executed te) edge_cypher_files"
    using import_loop_events by blast
  have "events (import_final_state fs run db0 node_cypher_files edge_cypher_files) = tn @ te"
    using tn te by (simp add: import_final_state_def Let_def import_loop_append)
  then show ?thesis using tn te by blast
qed

lemma example_events:
  "events (import_final_state example_fs example_run [] [nodes_a] [edges_x])
   = [Visit nodes_a, Visit edges_x, Execute edges_x]"
  by code_simp

theorem node_scripts_before_edge_scripts_witness:
  "events (import_final_state example_fs example_run [] [nodes_a] [edges_x])
     = [Visit nodes_a, Visit edges_x, Execute edges_x]
   \<and> (\<exists>tn te. [Visit nodes_a, Visit edges_x, Execute edges_x] = tn @ te
        \<and> visited tn = [nodes_a] \<and> subseq (executed tn) [nodes_a]
        \<and> visited te = [edges_x] \<and> subseq (executed te) [edges_x])"
  using node_scripts_before_edge_scripts[of example_fs example_run "[]" "[nodes_a]" "[edges_x]"]
  by (simp only: example_events simp_thms)

lemma import_verdict_iff:
  "(import_online_neo4j fs run db0 ns es \<longleftrightarrow>
      \<not> import_errors (import_final_state fs run db0 ns es)
      \<and> (0 < processed_files (import_final_state fs run db0 ns es) \<or> (ns = [] \<and> es = [])))"
  by (auto simp: import_online_neo4j_def import_verdict_def)

text \<open>
  One iteration sets \<open>import_errors\<close> exactly when the script fails, adds one to
  \<open>processed_files\<close> exactly when its query is executed, and leaves the database the
  script leaves; it never clears the flag and never lowers the count.
\<close>

lemma process_errors:
  "import_errors (process_cypher_file fs run st p) \<longleftrightarrow>
     import_errors st \<or> fst (script_result fs run (database st) p) = Failed"
  by (auto simp: process_cypher_file_def script_result_def Let_def
      split: sum.splits rewrite_result.splits prod.splits option.splits)

lemma process_count:
  "processed_files (process_cypher_file fs run st p) =
     processed_files st + (if fst (script_result fs run (database st) p) = Processed then 1 else 0)"
  by (auto simp: process_cypher_file_def script_result_def Let_def
      split: sum.splits rewrite_result.splits prod.splits option.splits)

lemma process_database:
  "database (process_cypher_file fs run st p) = snd (script_result fs run (database st) p)"
  by (auto simp: process_cypher_file_def script_result_def Let_def
      split: sum.splits rewrite_result.splits prod.splits option.splits)

lemma import_loop_errors:
  "import_errors (import_loop fs run st ps) \<longleftrightarrow>
     import_errors st \<or> Failed \<in> set (outcomes fs run (database st) ps)"
proof (induction ps arbitrary: st)
  case Nil
  show ?case by simp
next
  case (Cons p ps)
  show ?case
    by (simp only: import_loop_Cons Cons.IH process_errors process_database outcomes.simps
          list.set insert_iff) auto
qed

lemma import_loop_count:
  "processed_files (import_loop fs run st ps) =
     processed_files st + length (filter (\<lambda>oc. oc = Processed) (outcomes fs run (database st) ps))"
proof (induction ps arbitrary: st)
  case Nil
  show ?case by simp
next
  case (Cons p ps)
  show ?case
    by (simp only: import_loop_Cons Cons.IH process_count process_database outcomes.simps) simp
qed

lemma length_outcomes [simp]: "length (outcomes fs run db ps) = length ps"
  by (induction ps arbitrary: db) simp_all

text \<open>
  Claim C4.  \<open>import_online_neo4j\<close> returns true exactly when no script of the run failed
  and either the query of at least one script was executed or no script was given; when
  scripts were given and the query of none was executed it returns false, whether a
  script failed or not.  The flag \<open>import_errors\<close> of the loop is set at the end exactly
  when a script failed, and \<open>processed_files\<close> is the number of scripts whose query was
  executed.
\<close>

theorem import_succeeds_iff:
  "(import_online_neo4j fs run db0 ns es \<longleftrightarrow>
      Failed \<notin> set (outcomes fs run (snd (run db0 constraint_query)) (ns @ es))
      \<and> (Processed \<in> set (outcomes fs run (snd (run db0 constraint_query)) (ns @ es))
          \<or> (ns = [] \<and> es = [])))
   \<and> ((ns \<noteq> [] \<or> es \<noteq> [])
        \<and> Processed \<notin> set (outcomes fs run (snd (run db0 constraint_query)) (ns @ es))
        \<longrightarrow> \<not> import_online_neo4j fs run db0 ns es)
   \<and> (import_errors (import_final_state fs run db0 ns es) \<longleftrightarrow>
        Failed \<in> set (outcomes fs run (snd (run db0 constraint_query)) (ns @ es)))
   \<and> processed_files (import_final_state fs run db0 ns es) =
        length (filter (\<lambda>oc. oc = Processed)
                  (outcomes fs run (snd (run db0 constraint_query)) (ns @ es)))"
proof -
  let ?os = "outcomes fs run (snd (run db0 constraint_query)) (ns @ es)"
  let ?fin = "import_final_state fs run db0 ns es"
  have e: "import_errors ?fin \<longleftrightarrow> Failed \<in> set ?os"
    by (simp add: import_final_state_def Let_def import_loop_errors del: outcomes.simps)
  have c: "processed_files ?fin = length (filter (\<lambda>oc. oc = Processed) ?os)"
    by (simp add: import_final_state_def Let_def import_loop_count del: outcomes.simps)
  have p: "0 < processed_files ?fin \<longleftrightarrow> Processed \<in> set ?os"
    unfolding c by (auto simp: filter_empty_conv)
  have v: "import_online_neo4j fs run db0 ns es \<longleftrightarrow>
      Failed \<notin> set ?os \<and> (Processed \<in> set ?os \<or> (ns = [] \<and> es = []))"
    unfolding import_verdict_iff e p ..
  have z: "(ns \<noteq> [] \<or> es \<noteq> []) \<and> Processed \<notin> set ?os
        \<longrightarrow> \<not> import_online_neo4j fs run db0 ns es"
    unfolding v by blast
  show ?thesis using v z e c by (intro conjI)
qed

lemma example_result_nodes_a: "script_result example_fs example_run db nodes_a = (Skipped, db)"
  by (simp add: script_result_def read_text_def example_fs_def example_dir_def nodes_a_def
        no_errors_def strip_def)

lemma process_failed_rewrite:
  assumes "read_text fs p = Inr t" "strip t \<noteq> []"
    "rewrite fs p t = MalformedScript \<or> rewrite fs p t = DataFileMissing"
  shows "process_cypher_file fs run st p = st\<lparr>events := events st @ [Visit p], import_errors := True\<rparr>"
  using assms by (auto simp: process_cypher_file_def Let_def)

lemma process_executed:
  assumes "read_text fs q = Inr t" "strip t \<noteq> []" "rewrite fs q t = Batched query"
    "run (database st) query = (None, db')"
  shows "process_cypher_file fs run st q =
     st\<lparr>events := events st @ [Visit q, Execute q],
        processed_files := processed_files st + 1, database := db'\<rparr>"
  using assms by (auto simp: process_cypher_file_def Let_def)

lemma process_keeps_errors:
  "import_errors st \<Longrightarrow> import_errors (process_cypher_file fs run st p)"
  by (auto simp: process_cypher_file_def Let_def
      split: sum.splits rewrite_result.splits prod.splits option.splits)

lemma import_loop_keeps_errors:
  "import_errors st \<Longrightarrow> import_errors (import_loop fs run st ps)"
  by (induction ps arbitrary: st) (auto simp: process_keeps_errors)

lemma import_loop_visited:
  "visited (events (import_loop fs run st ps)) = visited (events st) @ ps"
  using import_loop_events[of fs run st ps] by auto

text \<open>
  Claim C5.  When the rewrite step fails on a script with \<open>MalformedScript\<close> or
  \<open>DataFileMissing\<close>, the loop sets \<open>import_errors\<close>, touches neither the count of
  processed scripts nor the database, and goes on with the scripts that remain, all of
  which it visits; the flag stays set to the end.  With two scripts, one failing so and
  the other rewritten and executed without an exception, in either order,
  \<open>import_online_neo4j\<close> returns false and the count of processed scripts is 1.
\<close>

theorem failed_rewrite_is_recorded_and_skipped:
  assumes "read_text fs p = Inr t" "strip t \<noteq> []"
    "rewrite fs p t = MalformedScript \<or> rewrite fs p t = DataFileMissing"
  shows "import_loop fs run st (p # rest)
           = import_loop fs run (st\<lparr>events := events st @ [Visit p], import_errors := True\<rparr>) rest
       \<and> import_errors (import_loop fs run st (p # rest))
       \<and> visited (events (import_loop fs run st (p # rest))) = visited (events st) @ p # rest
       \<and> (\<forall>q tq query db'.
            read_text fs q = Inr tq \<and> strip tq \<noteq> [] \<and> rewrite fs q tq = Batched query
            \<and> run (snd (run db0 constraint_query)) query = (None, db')
            \<and> (ns @ es = [p, q] \<or> ns @ es = [q, p])
            \<longrightarrow> \<not> import_online_neo4j fs run db0 ns es
                \<and> processed_files (import_final_state fs run db0 ns es) = 1)"
proof -
  let ?st' = "st\<lparr>events := events st @ [Visit p], import_errors := True\<rparr>"
  have step: "import_loop fs run st (p # rest) = import_loop fs run ?st' rest"
    by (simp only: import_loop_Cons process_failed_rewrite[OF assms])
  have errs: "import_errors (import_loop fs run st (p # rest))"
    unfolding step by (rule import_loop_keeps_errors) simp
  have vis: "visited (events (import_loop fs run st (p # rest))) = visited (events st) @ p # rest"
    by (rule import_loop_visited)
  have scen: "\<not> import_online_neo4j fs run db0 ns es
      \<and> processed_files (import_final_state fs run db0 ns es) = 1"
    if h: "read_text fs q = Inr tq \<and> strip tq \<noteq> [] \<and> rewrite fs q tq = Batched query
            \<and> run (snd (run db0 constraint_query)) query = (None, db')
            \<and> (ns @ es = [p, q] \<or> ns @ es = [q, p])" for q tq query db'
  proof -
    let ?db1 = "snd (run db0 constraint_query)"
    let ?st0 = "\<lparr>import_errors = False, processed_files = 0, events = [], database = ?db1\<rparr>"
    have fin: "import_final_state fs run db0 ns es = import_loop fs run ?st0 (ns @ es)"
      by (simp add: import_final_state_def Let_def)
    have bad: "\<And>s. process_cypher_file fs run s p
        = s\<lparr>events := events s @ [Visit p], import_errors := True\<rparr>"
      by (rule process_failed_rewrite[OF assms])
    have good: "\<And>s. database s = ?db1 \<Longrightarrow> process_cypher_file fs run s q =
       s\<lparr>events := events s @ [Visit q, Execute q],
          processed_files := processed_files s + 1, database := db'\<rparr>"
      using h process_executed[of fs q tq query run _ db'] by simp
    have "import_errors (import_final_state fs run db0 ns es)
        \<and> processed_files (import_final_state fs run db0 ns es) = 1"
    proof (cases "ns @ es = [p, q]")
      case True
      then show ?thesis by (simp add: fin bad good)
    next
      case False
      then have "ns @ es = [q, p]" using h by blast
      then show ?thesis by (simp add: fin bad good)
    qed
    then show ?thesis
      by (simp add: import_online_neo4j_def import_verdict_def)
  qed
  show ?thesis using step errs vis scen by blast
qed

lemma example_rewrite_edges: "rewrite example_fs edges_x edges_x_text = Batched edges_x_query"
  by code_simp

lemma example_rewrite_nodes_b: "rewrite example_fs nodes_b ''MATCH (n) RETURN n;'' = MalformedScript"
  by code_simp

lemma example_read_nodes_b: "read_text example_fs nodes_b = Inr ''MATCH (n) RETURN n;''"
  by code_simp

lemma example_read_edges_x: "read_text example_fs edges_x = Inr edges_x_text"
  by code_simp

lemma example_result_nodes_b: "script_result example_fs example_run db nodes_b = (Failed, db)"
proof -
  have "strip ''MATCH (n) RETURN n;'' \<noteq> []" by code_simp
  then show ?thesis
    by (simp add: script_result_def example_read_nodes_b example_rewrite_nodes_b)
qed

lemma example_result_edges_x:
  "script_result example_fs example_run db edges_x = (Processed, db @ [edges_x_query])"
proof -
  have "strip edges_x_text \<noteq> []" by code_simp
  then show ?thesis
    by (simp add: script_result_def example_read_edges_x example_rewrite_edges example_run_def)
qed

text \<open>
  Three runs on the example directory: an empty script and a well-formed one, a script
  without a loading clause and a well-formed one, and an empty script alone.
\<close>

theorem import_succeeds_iff_witness:
  "outcomes example_fs example_run (snd (example_run [] constraint_query)) ([nodes_a] @ [edges_x])
     = [Skipped, Processed]
   \<and> import_online_neo4j example_fs example_run [] [nodes_a] [edges_x]
   \<and> outcomes example_fs example_run (snd (example_run [] constraint_query)) ([nodes_b] @ [edges_x])
     = [Failed, Processed]
   \<and> \<not> import_online_neo4j example_fs example_run [] [nodes_b] [edges_x]
   \<and> import_errors (import_final_state example_fs example_run [] [nodes_b] [edges_x])
   \<and> processed_files (import_final_state example_fs example_run [] [nodes_b] [edges_x]) = 1
   \<and> outcomes example_fs example_run (snd (example_run [] constraint_query)) ([nodes_a] @ [])
     = [Skipped]
   \<and> \<not> import_online_neo4j example_fs example_run [] [nodes_a] []"
proof -
  let ?db = "snd (example_run [] constraint_query)"
  have a: "outcomes example_fs example_run ?db ([nodes_a] @ [edges_x]) = [Skipped, Processed]"
    by (simp add: example_result_nodes_a example_result_edges_x)
  have b: "outcomes example_fs example_run ?db ([nodes_b] @ [edges_x]) = [Failed, Processed]"
    by (simp add: example_result_nodes_b example_result_edges_x)
  have c: "outcomes example_fs example_run ?db ([nodes_a] @ []) = [Skipped]"
    by (simp add: example_result_nodes_a)
  note ta = import_succeeds_iff[of example_fs example_run "[]" "[nodes_a]" "[edges_x]"]
  note tb = import_succeeds_iff[of example_fs example_run "[]" "[nodes_b]" "[edges_x]"]
  note tc = import_succeeds_iff[of example_fs example_run "[]" "[nodes_a]" "[]"]
  have ra: "import_online_neo4j example_fs example_run [] [nodes_a] [edges_x]"
    using ta unfolding a by simp
  have rb: "\<not> import_online_neo4j example_fs example_run [] [nodes_b] [edges_x]"
    "import_errors (import_final_state example_fs example_run [] [nodes_b] [edges_x])"
    "processed_files (import_final_state example_fs example_run [] [nodes_b] [edges_x]) = 1"
    using tb unfolding b by simp_all
  have rc: "\<not> import_online_neo4j example_fs example_run [] [nodes_a] []"
    using tc unfolding c by simp
  show ?thesis using a ra b rb c rc by (intro conjI)
qed

theorem failed_rewrite_is_recorded_and_skipped_witness:
  "read_text example_fs nodes_b = Inr ''MATCH (n) RETURN n;''
   \<and> rewrite example_fs nodes_b ''MATCH (n) RETURN n;'' = MalformedScript
   \<and> rewrite example_fs edges_x edges_x_text = Batched edges_x_query
   \<and> \<not> import_online_neo4j example_fs example_run [] [nodes_b] [edges_x]
   \<and> processed_files (import_final_state example_fs example_run [] [nodes_b] [edges_x]) = 1
   \<and> visited (events (import_final_state example_fs example_run [] [nodes_b] [edges_x]))
       = [nodes_b, edges_x]"
proof -
  have r1: "read_text example_fs nodes_b = Inr ''MATCH (n) RETURN n;''" by code_simp
  have s1: "strip ''MATCH (n) RETURN n;'' \<noteq> []" by code_simp
  have r2: "read_text example_fs edges_x = Inr edges_x_text" by code_simp
  have s2: "strip edges_x_text \<noteq> []" by code_simp
  have run: "example_run (snd (example_run [] constraint_query)) edges_x_query
      = (None, [constraint_query, edges_x_query])"
    by (simp add: example_run_def)
  note t = failed_rewrite_is_recorded_and_skipped[OF r1 s1 disjI1[OF example_rewrite_nodes_b],
      of example_run "\<lparr>import_errors = False, processed_files = 0, events = [],
               database = snd (example_run [] constraint_query)\<rparr>" "[edges_x]" "[]" "[nodes_b]" "[edges_x]"]
  have "\<not> import_online_neo4j example_fs example_run [] [nodes_b] [edges_x]
      \<and> processed_files (import_final_state example_fs example_run [] [nodes_b] [edges_x]) = 1"
    by (rule t[THEN conjunct2, THEN conjunct2, THEN conjunct2, rule_format,
          of edges_x edges_x_text edges_x_query "[constraint_query, edges_x_query]"])
       (simp add: r2 s2 example_rewrite_edges run)
  moreover have "visited (events (import_final_state example_fs example_run [] [nodes_b] [edges_x]))
       = [nodes_b, edges_x]"
    using t[THEN conjunct2, THEN conjunct2, THEN conjunct1]
    by (simp add: import_final_state_def Let_def del: import_loop_Cons)
  ultimately show ?thesis using r1 example_rewrite_nodes_b example_rewrite_edges by blast
qed

section \<open>The rewriter: failures and determinism\<close>

text \<open>
  The rewrite step ends in \<open>MalformedScript\<close> exactly when the search for the loading
  clause in the script text without its last character finds nothing, in
  \<open>DataFileMissing\<close> exactly when the search finds a clause and \<open>is_file\<close> answers that
  the final component of the file it references is not a regular file in the script's
  own directory, and in \<open>IsFileRaised\<close> exactly when \<open>is_file\<close> raises instead of
  answering.
\<close>

lemma rewrite_failures:
  "(rewrite fs p t = MalformedScript \<longleftrightarrow> search pattern_load_csv (butlast t) = None)
   \<and> (rewrite fs p t = DataFileMissing \<longleftrightarrow>
        (\<exists>m. search pattern_load_csv (butlast t) = Some m
             \<and> is_file fs (parent p) (path_name (m_group m 2)) = Inr False))
   \<and> (rewrite fs p t = IsFileRaised e \<longleftrightarrow>
        (\<exists>m. search pattern_load_csv (butlast t) = Some m
             \<and> is_file fs (parent p) (path_name (m_group m 2)) = Inl e))"
  by (auto simp: rewrite_def Let_def split: option.splits sum.splits)

lemma example_search_none: "search pattern_load_csv (butlast ''MATCH (n) RETURN n;'') = None"
  by code_simp

lemma example_search_some:
  "search pattern_load_csv (butlast ''LOAD CSV FROM 'file:/missing.csv' AS line\<newline>CREATE (a);'')
   = Some \<lparr>m_start = 0, m_end = 41,
       m_groups = [(3, '' AS line''), (4, ''line''), (2, ''missing.csv''), (1, ''LOAD CSV FROM '')]\<rparr>"
  by code_simp

lemma example_rewrite_failures:
  "rewrite example_fs nodes_b ''MATCH (n) RETURN n;'' = MalformedScript
   \<and> rewrite example_fs nodes_b ''LOAD CSV FROM 'file:/missing.csv' AS line\<newline>CREATE (a);''
       = DataFileMissing"
proof -
  let ?m = "\<lparr>m_start = 0, m_end = 41,
       m_groups = [(3, '' AS line''), (4, ''line''), (2, ''missing.csv''), (1, ''LOAD CSV FROM '')]\<rparr>"
  have "is_file example_fs (parent nodes_b) (path_name (m_group ?m 2)) = Inr False"
    by code_simp
  then have "\<exists>m. search pattern_load_csv
          (butlast ''LOAD CSV FROM 'file:/missing.csv' AS line\<newline>CREATE (a);'') = Some m
        \<and> is_file example_fs (parent nodes_b) (path_name (m_group m 2)) = Inr False"
    using example_search_some by blast
  then show ?thesis
    using rewrite_failures[of example_fs nodes_b "''MATCH (n) RETURN n;''"]
      rewrite_failures[of example_fs nodes_b
        "''LOAD CSV FROM 'file:/missing.csv' AS line\<newline>CREATE (a);''"]
      example_search_none
    by blast
qed


text \<open>
  Claim C9.  The output of the rewrite step depends on more than the script text and the
  data file: the final \<open>RETURN\<close> quotes the name of the script file, so the same text read
  from two scripts of one directory gives two outputs.  With the name of the script file
  added the claim holds: the rewrite step is a function of the script text, the name of
  the script file and what \<open>is_file\<close> gives for the data file the script references; on
  two file systems that agree on that, whatever else they hold, and for two scripts of
  the same name, it gives the same result.  It reads nothing of the state of the loop.
\<close>

theorem rewrite_deterministic:
  "name p = name p'
   \<and> (\<forall>m. search pattern_load_csv (butlast t) = Some m \<longrightarrow>
          is_file fs (parent p) (path_name (m_group m 2))
          = is_file fs' (parent p') (path_name (m_group m 2)))
   \<longrightarrow> rewrite fs p t = rewrite fs' p' t"
proof (intro impI, elim conjE)
  assume n: "name p = name p'"
    and h: "\<forall>m. search pattern_load_csv (butlast t) = Some m \<longrightarrow>
          is_file fs (parent p) (path_name (m_group m 2))
          = is_file fs' (parent p') (path_name (m_group m 2))"
  show "rewrite fs p t = rewrite fs' p' t"
  proof (cases "search pattern_load_csv (butlast t)")
    case None
    then show ?thesis by (simp add: rewrite_def)
  next
    case (Some m)
    with h have "is_file fs (parent p) (path_name (m_group m 2))
        = is_file fs' (parent p') (path_name (m_group m 2))"
      by simp
    then show ?thesis unfolding rewrite_def Some n by simp
  qed
qed

lemma example_search_edges:
  "search pattern_load_csv (butlast edges_x_text)
   = Some \<lparr>m_start = 0, m_end = 46,
       m_groups = [(3, '' AS line''), (4, ''line''), (2, ''edges_x_data.csv''), (1, ''LOAD CSV FROM '')]\<rparr>"
  by code_simp

theorem rewrite_deterministic_witness:
  "name edges_x = name edges_x
   \<and> is_file example_fs ''/out'' ''edges_x_data.csv'' = Inr True
   \<and> is_file other_fs ''/out'' ''edges_x_data.csv'' = Inr True
   \<and> rewrite example_fs edges_x edges_x_text = rewrite other_fs edges_x edges_x_text"
proof -
  let ?m = "\<lparr>m_start = 0, m_end = 46,
       m_groups = [(3, '' AS line''), (4, ''line''), (2, ''edges_x_data.csv''), (1, ''LOAD CSV FROM '')]\<rparr>"
  have a: "is_file example_fs ''/out'' ''edges_x_data.csv'' = Inr True" by code_simp
  have b: "is_file other_fs ''/out'' ''edges_x_data.csv'' = Inr True" by code_simp
  have n: "path_name (m_group ?m 2) = ''edges_x_data.csv''" by code_simp
  have pp: "parent edges_x = ''/out''" by (simp add: edges_x_def)
  have "\<forall>m. search pattern_load_csv (butlast edges_x_text) = Some m \<longrightarrow>
          is_file example_fs (parent edges_x) (path_name (m_group m 2))
          = is_file other_fs (parent edges_x) (path_name (m_group m 2))"
    using a b n pp by (simp add: example_search_edges)
  then have "rewrite example_fs edges_x edges_x_text = rewrite other_fs edges_x edges_x_text"
    using rewrite_deterministic[of edges_x edges_x edges_x_text example_fs other_fs] by blast
  then show ?thesis using a b by simp
qed

text \<open>
  The same text in the same directory, once as \<open>edges_x_cypher.csv\<close> and once as
  \<open>edges_y_cypher.csv\<close>: the two outputs differ in their last line.
\<close>

theorem rewrite_depends_on_script_name:
  "parent edges_x = parent edges_y
   \<and> rewrite example_fs edges_x edges_x_text = Batched edges_x_query
   \<and> rewrite example_fs edges_y edges_x_text =
       Batched (''LOAD CSV FROM 'file:///edges_x_data.csv' AS line\<newline>CALL {\<newline>    WITH line\<newline>    CREATE (a)\<newline>} IN TRANSACTIONS OF 1000 ROWS\<newline>RETURN 'Batch processed from edges_y_cypher.csv'' @ [QUOTE])
   \<and> rewrite example_fs edges_x edges_x_text \<noteq> rewrite example_fs edges_y edges_x_text"
proof -
  have p: "parent edges_x = parent edges_y" by (simp add: edges_x_def edges_y_def)
  have y: "rewrite example_fs edges_y edges_x_text =
       Batched (''LOAD CSV FROM 'file:///edges_x_data.csv' AS line\<newline>CALL {\<newline>    WITH line\<newline>    CREATE (a)\<newline>} IN TRANSACTIONS OF 1000 ROWS\<newline>RETURN 'Batch processed from edges_y_cypher.csv'' @ [QUOTE])"
    by code_simp
  have d: "rewrite example_fs edges_x edges_x_text \<noteq> rewrite example_fs edges_y edges_x_text"
    unfolding example_rewrite_edges y by (simp add: edges_x_query_def)
  show ?thesis using p example_rewrite_edges y d by (intro conjI)
qed

text \<open>
  Claim C2.  The body put inside the wrapper is the trimmed text after the clause without
  its last character, whatever that character is: on a script whose body \<open>RETURN 1\<close> has
  no terminator, the \<open>1\<close> is lost.
\<close>

theorem final_character_lost:
  "rewrite example_fs edges_x no_last_terminator_text =
     Batched (''LOAD CSV FROM 'file:///edges_x_data.csv' AS line\<newline>CALL {\<newline>    WITH line\<newline>    RETURN \<newline>} IN TRANSACTIONS OF 1000 ROWS\<newline>RETURN 'Batch processed from edges_x_cypher.csv'' @ [QUOTE])"
  by code_simp

section \<open>The program: properties\<close>

text \<open>
  Claim C3.  With an existing input path and a password given, \<open>main\<close> reads
  \<open>args.neo4j_url\<close>, an attribute the parser never defines (the option is
  \<open>--neo4j-uri\<close>): the program ends with an uncaught \<open>AttributeError\<close>, status 1, before
  the parse phase, although the steps after the validation would end with status 0 on the
  same input.
\<close>

theorem main_raises_attribute_error:
  "main example_command_line example_world = Uncaught ''AttributeError''
   \<and> exit_code (main example_command_line example_world) = 1
   \<and> run_pipeline (parse_args example_command_line (getenv example_world)) example_world = Exit 0"
  by code_simp

section \<open>The matcher on the loading clause\<close>

subsection \<open>Literals and runs\<close>

lemma rx_match_Str:
  "rx_match (Cat (Str w) r) s g k = (case skip_lit w s of None \<Rightarrow> None | Some s' \<Rightarrow> rx_match r s' g k)"
proof (induction w arbitrary: s)
  case Nil
  show ?case by (simp add: Str_def)
next
  case (Cons p ps)
  have IH: "\<And>s. rx_match (Str ps) s g (\<lambda>s' g'. rx_match r s' g' k)
     = (case skip_lit ps s of None \<Rightarrow> None | Some s' \<Rightarrow> rx_match r s' g k)"
    using Cons.IH by simp
  show ?case
  proof (cases s)
    case Nil
    then show ?thesis by (simp add: Str_def)
  next
    case (Cons c cs)
    then show ?thesis using IH[of cs] by (simp add: Str_def)
  qed
qed

lemma rx_match_Str_end:
  "rx_match (Str w) s g k = (case skip_lit w s of None \<Rightarrow> None | Some s' \<Rightarrow> k s' g)"
  using rx_match_Str[of w Eps s g k] by (simp split: option.splits)

lemma rx_match_plus_det:
  assumes "fails_on C k"
  shows "rx_match (OneOrMore C) s g k = (case skip_class1 C s of None \<Rightarrow> None | Some s' \<Rightarrow> k s' g)"
proof (induction s)
  case Nil
  show ?case by (simp add: skip_class1_def)
next
  case (Cons c cs)
  show ?case
  proof (cases "in_class C c")
    case False
    then show ?thesis by (simp add: skip_class1_def)
  next
    case True
    show ?thesis
    proof (cases cs)
      case Nil
      then show ?thesis using True by (simp add: skip_class1_def)
    next
      case (Cons d ds)
      show ?thesis
      proof (cases "in_class C d")
        case False
        then show ?thesis using True Cons by (simp add: skip_class1_def)
      next
        case Td: True
        have "k (d # ds) g = None" using assms Td by (simp add: fails_on_def)
        then show ?thesis using True Cons Td Cons.IH
          by (simp add: skip_class1_def split: option.splits)
      qed
    qed
  qed
qed

lemma rx_match_plus_total:
  assumes "\<And>s g. k s g \<noteq> None"
  shows "rx_match (OneOrMore C) s g k = (case skip_class1 C s of None \<Rightarrow> None | Some s' \<Rightarrow> k s' g)"
proof (induction s)
  case Nil
  show ?case by (simp add: skip_class1_def)
next
  case (Cons c cs)
  show ?case
  proof (cases "in_class C c")
    case False
    then show ?thesis by (simp add: skip_class1_def)
  next
    case True
    show ?thesis
    proof (cases cs)
      case Nil
      then show ?thesis using True by (simp add: skip_class1_def)
    next
      case (Cons d ds)
      show ?thesis
      proof (cases "in_class C d")
        case False
        then show ?thesis using True Cons by (simp add: skip_class1_def)
      next
        case Td: True
        have "k (dropWhile (in_class C) ds) g \<noteq> None" using assms by simp
        then show ?thesis using True Cons Td Cons.IH
          by (auto simp add: skip_class1_def split: option.splits)
      qed
    qed
  qed
qed

subsection \<open>The matcher computes the scan\<close>

lemma of_char_ascii_lower: "(of_char (ascii_lower c) :: nat) = lower_code c"
  by (simp add: ascii_lower_def lower_code_def Let_def)

lemma ieq_iff: "ieq p c \<longleftrightarrow> lower_code c = lower_code p"
proof -
  have "ieq p c \<longleftrightarrow> (of_char (ascii_lower c) :: nat) = of_char (ascii_lower p)"
    unfolding ieq_def by (simp only: of_char_eq_iff)
  then show ?thesis by (simp add: of_char_ascii_lower)
qed

lemma space_not_ieq: "is_space c \<Longrightarrow> lower_code p \<notin> {9..13} \<union> {28..32} \<union> {133, 160} \<Longrightarrow> \<not> ieq p c"
  by (auto simp: ieq_iff is_space_def lower_code_def Let_def split: if_splits)

lemma space_not_word: "is_space c \<Longrightarrow> \<not> is_word c"
  by (auto simp: is_space_def is_word_def Let_def)

lemma lc_simps [simp]:
  "lower_code (CHR ''L'') = 108" "lower_code (CHR ''O'') = 111" "lower_code (CHR ''A'') = 97"
  "lower_code (CHR ''D'') = 100" "lower_code (CHR ''C'') = 99" "lower_code (CHR ''S'') = 115"
  "lower_code (CHR ''V'') = 118" "lower_code (CHR ''W'') = 119" "lower_code (CHR ''I'') = 105"
  "lower_code (CHR ''T'') = 116" "lower_code (CHR ''H'') = 104" "lower_code (CHR ''E'') = 101"
  "lower_code (CHR ''R'') = 114" "lower_code (CHR ''F'') = 102" "lower_code (CHR ''M'') = 109"
  "lower_code (CHR ''f'') = 102" "lower_code (CHR ''i'') = 105" "lower_code (CHR ''l'') = 108"
  "lower_code (CHR ''e'') = 101" "lower_code (CHR '':'') = 58" "lower_code (CHR ''/'') = 47"
  "lower_code QUOTE = 39"
  by (simp_all add: lower_code_def)

lemma fails_on_skip_lit:
  "(\<forall>c. in_class C c \<longrightarrow> \<not> ieq p c) \<Longrightarrow>
   fails_on C (\<lambda>s g. case skip_lit (p # ps) s of None \<Rightarrow> None | Some s' \<Rightarrow> K s s' g)"
  by (simp add: fails_on_def)

lemma fails_on_skip_class:
  "(\<forall>c. in_class C c \<longrightarrow> \<not> in_class D c) \<Longrightarrow>
   fails_on C (\<lambda>s g. case skip_class1 D s of None \<Rightarrow> None | Some s' \<Rightarrow> K s s' g)"
  by (simp add: fails_on_def skip_class1_def)

lemma rx_match_Lit:
  "rx_match (Lit p) s g k = (case skip_lit [p] s of None \<Rightarrow> None | Some s' \<Rightarrow> k s' g)"
  by (cases s) auto

lemma space_ieq_False [simp]:
  "is_space c \<Longrightarrow> lower_code p \<notin> {9..13} \<union> {28..32} \<union> {133, 160} \<Longrightarrow> ieq p c = False"
  using space_not_ieq by blast

lemma space_word_False [simp]: "is_space c \<Longrightarrow> is_word c = False"
  using space_not_word by blast

lemmas rx_simps = WS_def rx_match_Str rx_match_Str_end rx_match_Lit rx_match_plus_det rx_match_plus_total
  fails_on_skip_lit fails_on_skip_class

lemma rx_group3:
  assumes "\<And>s g. k s g \<noteq> None"
  shows "rx_match (Group 3 (Cat WS (Cat (Str ''AS'') (Cat WS (Group 4 (OneOrMore WordChar)))))) s g k =
    (case scan_suffix s of None \<Rightarrow> None
     | Some (g3, g4, rest) \<Rightarrow> k rest ((3, g3) # (4, g4) # g))"
  using assms
  by (simp add: rx_simps scan_suffix_def split: option.splits)

lemma noquote_ieq_False [simp]: "c \<noteq> QUOTE \<Longrightarrow> ieq QUOTE c = False"
proof -
  have "(of_char c :: nat) \<noteq> of_char QUOTE" if "c \<noteq> QUOTE"
    using that by (simp only: of_char_eq_iff) simp
  then show "c \<noteq> QUOTE \<Longrightarrow> ieq QUOTE c = False"
    by (auto simp: ieq_iff lower_code_def split: if_splits)
qed

lemma skip_lit_Cons2:
  "skip_lit (p # q # w) s = (case skip_lit [p] s of None \<Rightarrow> None | Some s' \<Rightarrow> skip_lit (q # w) s')"
  by (cases s) auto

lemma rx_tail:
  assumes "\<And>s g. k s g \<noteq> None"
  shows "rx_match (Cat (Lit QUOTE) (Cat (Str ''file:/'')
         (Cat (Group 2 (OneOrMore (NotChar QUOTE)))
           (Cat (Lit QUOTE)
             (Group 3 (Cat WS (Cat (Str ''AS'') (Cat WS (Group 4 (OneOrMore WordChar)))))))))) s g k =
    (case skip_lit (QUOTE # ''file:/'') s of None \<Rightarrow> None
     | Some b \<Rightarrow> (case skip_class1 (NotChar QUOTE) b of None \<Rightarrow> None
     | Some c \<Rightarrow> (case skip_lit [QUOTE] c of None \<Rightarrow> None
     | Some d \<Rightarrow> (case scan_suffix d of None \<Rightarrow> None
     | Some (g3, g4, rest) \<Rightarrow> k rest ((3, g3) # (4, g4) # (2, take (length b - length c) b) # g)))))"
proof -
  have g3: "\<And>s g. rx_match (Group 3 (Cat WS (Cat (Str ''AS'') (Cat WS (Group 4 (OneOrMore WordChar)))))) s g k =
    (case scan_suffix s of None \<Rightarrow> None
     | Some (g3, g4, rest) \<Rightarrow> k rest ((3, g3) # (4, g4) # g))"
    using assms by (rule rx_group3)
  show ?thesis
    apply (simp only: rx_match.simps(6) g3)
    apply (simp add: rx_simps skip_lit_Cons2[of QUOTE] del: rx_match.simps(6) skip_lit.simps split: option.splits)
    done
qed

lemma with_from_excl: "skip_lit ''WITH'' d = Some e \<Longrightarrow> skip_lit ''FROM'' d = None"
  by (cases d) (auto simp: ieq_iff split: if_splits)

lemma rx_prefix:
  assumes "fails_on Whitespace K"
  shows "rx_match (Cat (Str ''LOAD'') (Cat WS (Cat (Str ''CSV'')
              (Cat (Opt (Cat WS (Cat (Str ''WITH'') (Cat WS (Str ''HEADERS'')))))
                (Cat WS (Cat (Str ''FROM'') WS)))))) s g K
    = (case scan_prefix s of None \<Rightarrow> None | Some a \<Rightarrow> K a g)"
  using assms
  apply (simp add: rx_simps scan_prefix_def scan_from_def del: skip_lit.simps split: option.splits)
  apply (auto dest: with_from_excl simp del: skip_lit.simps)
  done

lemma fails_on_tail:
  "fails_on Whitespace (\<lambda>s g. case skip_lit (QUOTE # w) s of None \<Rightarrow> None | Some b \<Rightarrow> X s b g)"
  by (rule fails_on_skip_lit) (auto simp: is_space_def ieq_iff lower_code_def)

theorem match_here_clause_at:
  "match_here pattern_load_csv s =
     map_option (\<lambda>(g1, g2, g3, g4, rest). (rest, [(3, g3), (4, g4), (2, g2), (1, g1)])) (clause_at s)"
proof -
  let ?k = "\<lambda>s' (g :: caps). Some (s', g)"
  have tot: "\<And>s g. ?k s g \<noteq> None" by simp
  note tail = rx_tail[of ?k, OF tot]
  show ?thesis
    unfolding match_here_def pattern_load_csv_def
    apply (simp only: rx_match.simps(6)[of "Group 1 _"] rx_match.simps(8) tail)
    apply (subst rx_prefix)
     apply (rule fails_on_tail)
    apply (simp add: clause_at_def split: option.splits)
    done
qed

subsection \<open>Characters a scan does not read past\<close>

lemma dropWhile_barrier: "\<not> P l \<Longrightarrow> dropWhile P (cs @ l # X) = dropWhile P cs @ l # X"
  by (induction cs) auto

lemma skip_lit_barrier:
  "(\<forall>p \<in> set w. \<not> ieq p l) \<Longrightarrow>
   skip_lit w (b @ l # X) = map_option (\<lambda>b'. b' @ l # X) (skip_lit w b)"
proof (induction w arbitrary: b)
  case Nil
  show ?case by simp
next
  case (Cons p ps)
  then show ?case by (cases b) auto
qed

lemma skip_class1_barrier:
  "\<not> in_class C l \<Longrightarrow>
   skip_class1 C (b @ l # X) = map_option (\<lambda>b'. b' @ l # X) (skip_class1 C b)"
  by (cases b) (auto simp: skip_class1_def dropWhile_barrier)

lemma quote_not_space [simp]: "\<not> is_space QUOTE"
  by (simp add: is_space_def)

lemma quote_not_word [simp]: "\<not> is_word QUOTE"
  by (simp add: is_word_def)

lemma of_char_QUOTE [simp]: "(of_char QUOTE :: nat) = 39"
  by simp

lemma ieq_quote [simp]: "ieq p QUOTE \<longleftrightarrow> p = QUOTE"
proof -
  have "(of_char p :: nat) = 39 \<longleftrightarrow> p = QUOTE"
  proof -
    have "(of_char p :: nat) = of_char QUOTE \<longleftrightarrow> p = QUOTE" by (simp only: of_char_eq_iff)
    then show ?thesis by simp
  qed
  then show ?thesis
    by (auto simp: ieq_iff lower_code_def split: if_splits)
qed

lemma ieq_quote_quote [simp]: "ieq QUOTE c \<longleftrightarrow> c = QUOTE"
  using noquote_ieq_False[of c] by (auto simp: ieq_def)

lemma barrier_skip_lit: "(\<forall>p \<in> set w. \<not> ieq p l) \<Longrightarrow> barrier l (skip_lit w)"
  by (simp add: barrier_def skip_lit_barrier)

lemma barrier_skip_class1: "\<not> in_class C l \<Longrightarrow> barrier l (skip_class1 C)"
  by (simp add: barrier_def skip_class1_barrier)

lemma barrier_bind:
  "barrier l f \<Longrightarrow> barrier l g \<Longrightarrow> barrier l (\<lambda>s. Option.bind (f s) g)"
  by (auto simp: barrier_def split: Option.bind_splits)

lemma barrier_case:
  "barrier l f \<Longrightarrow> barrier l g \<Longrightarrow> barrier l h \<Longrightarrow>
   barrier l (\<lambda>s. case f s of Some e \<Rightarrow> g e | None \<Rightarrow> h s)"
  by (auto simp: barrier_def split: option.splits)

lemma barrier_scan_from: "barrier QUOTE scan_from"
  unfolding scan_from_def
  by (intro barrier_bind barrier_skip_lit barrier_skip_class1) auto

lemma barrier_scan_prefix: "barrier QUOTE scan_prefix"
  unfolding scan_prefix_def
  by (intro barrier_bind barrier_case barrier_scan_from barrier_skip_lit barrier_skip_class1) auto

lemma scan_prefix_barrier:
  "scan_prefix (b @ QUOTE # X) = map_option (\<lambda>b'. b' @ QUOTE # X) (scan_prefix b)"
  using barrier_scan_prefix by (simp add: barrier_def)

subsection \<open>Characters of the first group\<close>

lemma eats_skip_lit: "(\<forall>p \<in> set w. \<forall>c. ieq p c \<longrightarrow> P c) \<Longrightarrow> eats P (skip_lit w)"
proof (induction w)
  case Nil
  show ?case by (simp add: eats_def)
next
  case (Cons p ps)
  then have IH: "eats P (skip_lit ps)" by simp
  show ?case
    unfolding eats_def
  proof (intro allI impI)
    fix s a assume h: "skip_lit (p # ps) s = Some a"
    then obtain c cs where s: "s = c # cs" "ieq p c" "skip_lit ps cs = Some a"
      by (cases s) (auto split: if_splits)
    then obtain x where "cs = x @ a" "\<forall>c \<in> set x. P c" using IH by (auto simp: eats_def)
    moreover have "P c" using Cons.prems s by simp
    ultimately have "s = (c # x) @ a \<and> (\<forall>c \<in> set (c # x). P c)" using s by simp
    then show "\<exists>x. s = x @ a \<and> (\<forall>c \<in> set x. P c)" by blast
  qed
qed

lemma eats_skip_class1: "(\<forall>c. in_class C c \<longrightarrow> P c) \<Longrightarrow> eats P (skip_class1 C)"
  unfolding eats_def
proof (intro allI impI)
  fix s a assume p: "\<forall>c. in_class C c \<longrightarrow> P c" and h: "skip_class1 C s = Some a"
  then obtain c cs where s: "s = c # cs" "in_class C c" "a = dropWhile (in_class C) cs"
    by (cases s) (auto simp: skip_class1_def split: if_splits)
  have "s = (c # takeWhile (in_class C) cs) @ a" using s by simp
  moreover have "\<forall>d \<in> set (c # takeWhile (in_class C) cs). P d"
    using p s by (auto dest: set_takeWhileD)
  ultimately show "\<exists>x. s = x @ a \<and> (\<forall>c \<in> set x. P c)" by blast
qed

lemma eats_bind: "eats P f \<Longrightarrow> eats P g \<Longrightarrow> eats P (\<lambda>s. Option.bind (f s) g)"
  unfolding eats_def
proof (intro allI impI)
  fix s a
  assume f: "\<forall>s a. f s = Some a \<longrightarrow> (\<exists>x. s = x @ a \<and> (\<forall>c \<in> set x. P c))"
    and g: "\<forall>s a. g s = Some a \<longrightarrow> (\<exists>x. s = x @ a \<and> (\<forall>c \<in> set x. P c))"
    and h: "Option.bind (f s) g = Some a"
  from h obtain m where m: "f s = Some m" "g m = Some a" by (auto split: Option.bind_splits)
  from f m obtain x where x: "s = x @ m" "\<forall>c \<in> set x. P c" by blast
  from g m obtain y where y: "m = y @ a" "\<forall>c \<in> set y. P c" by blast
  have "s = (x @ y) @ a \<and> (\<forall>c \<in> set (x @ y). P c)" using x y by auto
  then show "\<exists>x. s = x @ a \<and> (\<forall>c \<in> set x. P c)" by blast
qed

lemma eats_case:
  "eats P f \<Longrightarrow> eats P g \<Longrightarrow> eats P h \<Longrightarrow>
   eats P (\<lambda>s. case f s of Some e \<Rightarrow> g e | None \<Rightarrow> h s)"
  unfolding eats_def
proof (intro allI impI)
  fix s a
  assume f: "\<forall>s a. f s = Some a \<longrightarrow> (\<exists>x. s = x @ a \<and> (\<forall>c \<in> set x. P c))"
    and g: "\<forall>s a. g s = Some a \<longrightarrow> (\<exists>x. s = x @ a \<and> (\<forall>c \<in> set x. P c))"
    and h: "\<forall>s a. h s = Some a \<longrightarrow> (\<exists>x. s = x @ a \<and> (\<forall>c \<in> set x. P c))"
    and r: "(case f s of Some e \<Rightarrow> g e | None \<Rightarrow> h s) = Some a"
  show "\<exists>x. s = x @ a \<and> (\<forall>c \<in> set x. P c)"
  proof (cases "f s")
    case None
    then show ?thesis using h r by simp
  next
    case (Some m)
    then have gm: "g m = Some a" using r by simp
    from f Some obtain x where x: "s = x @ m" "\<forall>c \<in> set x. P c" by blast
    from g gm obtain y where y: "m = y @ a" "\<forall>c \<in> set y. P c" by blast
    have "s = (x @ y) @ a \<and> (\<forall>c \<in> set (x @ y). P c)" using x y by auto
    then show ?thesis by blast
  qed
qed

lemma space_not_L: "is_space c \<Longrightarrow> \<not> ieq (CHR ''L'') c"
  by (rule space_not_ieq) simp_all

lemma eats_ws_inner: "eats inner (skip_class1 Whitespace)"
  by (rule eats_skip_class1) (auto dest: space_not_L)

lemma eats_lit_inner:
  assumes "QUOTE \<notin> set w" "\<forall>p \<in> set w. lower_code p \<noteq> 108"
  shows "eats inner (skip_lit w)"
proof (rule eats_skip_lit, intro ballI allI impI)
  fix p c assume p: "p \<in> set w" and i: "ieq p c"
  have "c \<noteq> QUOTE"
  proof
    assume "c = QUOTE"
    then have "p = QUOTE" using i by simp
    then show False using p assms(1) by simp
  qed
  moreover have "\<not> ieq (CHR ''L'') c"
    using i p assms(2) by (simp add: ieq_iff)
  ultimately show "inner c" by simp
qed

lemma eats_scan_from: "eats inner scan_from"
  unfolding scan_from_def
  by (intro eats_bind eats_ws_inner eats_lit_inner) simp_all

lemma scan_prefix_Nil [simp]: "scan_prefix [] = None"
  by (simp add: scan_prefix_def)

lemma scan_prefix_Cons:
  "scan_prefix (c # cs) = (if ieq (CHR ''L'') c then scan_after_L cs else None)"
  by (simp add: scan_prefix_def scan_after_L_def)

lemma eats_scan_after_L: "eats inner scan_after_L"
  unfolding scan_after_L_def
  by (intro eats_bind eats_case eats_ws_inner eats_lit_inner eats_scan_from) simp_all

lemma scan_prefix_shape:
  assumes "scan_prefix s = Some a"
  shows "\<exists>l x. s = l # x @ a \<and> ieq (CHR ''L'') l \<and> (\<forall>c \<in> set x. inner c)"
proof -
  from assms obtain l cs where s: "s = l # cs" "ieq (CHR ''L'') l" "scan_after_L cs = Some a"
    by (cases s) (auto simp: scan_prefix_Cons split: if_splits)
  then obtain x where "cs = x @ a" "\<forall>c \<in> set x. inner c"
    using eats_scan_after_L by (auto simp: eats_def)
  then show ?thesis using s by auto
qed

lemma ieq_L_not_quote: "ieq (CHR ''L'') l \<Longrightarrow> l \<noteq> QUOTE"
  by (auto simp: ieq_iff lower_code_def)

lemma scan_prefix_no_quote:
  assumes "scan_prefix s = Some []"
  shows "QUOTE \<notin> set s"
proof -
  from scan_prefix_shape[OF assms] obtain l x where
    s: "s = l # x" "ieq (CHR ''L'') l" "\<forall>c \<in> set x. inner c" by auto
  have "l \<noteq> QUOTE" using s(2) by (rule ieq_L_not_quote)
  then show ?thesis using s by auto
qed

lemma scan_prefix_proper_suffix:
  assumes "scan_prefix (b @ g) = Some []" "scan_prefix g = Some []"
  shows "b = []"
proof (rule ccontr)
  assume "b \<noteq> []"
  then obtain c b' where b: "b = c # b'" by (cases b) auto
  from scan_prefix_shape[OF assms(1)] obtain l x where
    a: "b @ g = l # x" "\<forall>c \<in> set x. inner c" by auto
  from scan_prefix_shape[OF assms(2)] obtain l' x' where
    g: "g = l' # x'" "ieq (CHR ''L'') l'" by auto
  have "x = b' @ l' # x'" using a(1) b g(1) by simp
  then have "l' \<in> set x" by simp
  then show False using a(2) g(2) by blast
qed

subsection \<open>The two quotes of a clause\<close>

lemma scan_prefix_rest_subset:
  assumes "scan_prefix u = Some a"
  shows "set a \<subseteq> set u"
proof -
  from scan_prefix_shape[OF assms] obtain l x where "u = l # x @ a" by auto
  then show ?thesis by auto
qed

lemma skip_lit_rest_subset:
  assumes "skip_lit w s = Some a"
  shows "set a \<subseteq> set s"
proof -
  have "eats (\<lambda>c. True) (skip_lit w)" by (rule eats_skip_lit) simp
  then obtain x where "s = x @ a" using assms unfolding eats_def by blast
  then show ?thesis by auto
qed

lemma skip_quote_simps:
  "skip_lit [QUOTE] [] = None" "skip_lit [QUOTE] (QUOTE # w) = Some w"
  by (simp_all add: ieq_def)

lemma skip_notquote_all:
  "QUOTE \<notin> set g \<Longrightarrow> skip_class1 (NotChar QUOTE) g = (if g = [] then None else Some [])"
  by (cases g) (auto simp: skip_class1_def dropWhile_eq_Nil_conv)

lemma clause_at_quote_split:
  assumes "QUOTE \<notin> set u"
  shows "clause_at (u @ QUOTE # r) =
     (if scan_prefix u = Some [] then
        Option.bind (skip_lit ''file:/'' r) (\<lambda>b.
        Option.bind (skip_class1 (NotChar QUOTE) b) (\<lambda>c.
        Option.bind (skip_lit [QUOTE] c) (\<lambda>d.
        Option.bind (scan_suffix d) (\<lambda>(g3, g4, rest).
          Some (u, take (length b - length c) b, g3, g4, rest)))))
      else None)"
proof (cases "scan_prefix u")
  case None
  then show ?thesis by (simp add: clause_at_def scan_prefix_barrier)
next
  case (Some u')
  show ?thesis
  proof (cases u')
    case Nil
    then show ?thesis using Some
      by (simp add: clause_at_def scan_prefix_barrier)
  next
    case (Cons c cs)
    have "c \<in> set u" using scan_prefix_rest_subset[OF Some] Cons by auto
    then have "c \<noteq> QUOTE" using assms by auto
    then show ?thesis using Some Cons
      by (simp add: clause_at_def scan_prefix_barrier)
  qed
qed

lemma clause_at_two_quotes:
  assumes "QUOTE \<notin> set u" "QUOTE \<notin> set v"
  shows "clause_at (u @ QUOTE # v @ QUOTE # w) =
     (if scan_prefix u = Some [] then
        (case skip_lit ''file:/'' v of
           None \<Rightarrow> None
         | Some g2 \<Rightarrow>
             if g2 = [] then None
             else map_option (\<lambda>(g3, g4, rest). (u, g2, g3, g4, rest)) (scan_suffix w))
      else None)"
proof (cases "skip_lit ''file:/'' v")
  case None
  then show ?thesis
    by (simp add: clause_at_quote_split[OF assms(1)] skip_lit_barrier del: skip_lit.simps)
next
  case (Some g2)
  have nq: "QUOTE \<notin> set g2" using skip_lit_rest_subset[OF Some] assms(2) by auto
  have lit: "skip_lit ''file:/'' (v @ QUOTE # w) = Some (g2 @ QUOTE # w)"
    using Some by (simp add: skip_lit_barrier del: skip_lit.simps)
  have cls: "skip_class1 (NotChar QUOTE) (g2 @ QUOTE # w) = (if g2 = [] then None else Some (QUOTE # w))"
    by (simp add: skip_class1_barrier skip_notquote_all[OF nq])
  show ?thesis
    by (cases "scan_suffix w")
       (auto simp: clause_at_quote_split[OF assms(1)] lit cls Some skip_quote_simps
          simp del: skip_lit.simps)
qed

lemma clause_at_one_quote:
  assumes "QUOTE \<notin> set u" "QUOTE \<notin> set v"
  shows "clause_at (u @ QUOTE # v) = None"
proof (cases "skip_lit ''file:/'' v")
  case None
  then show ?thesis by (simp add: clause_at_quote_split[OF assms(1)] del: skip_lit.simps)
next
  case (Some g2)
  have nq: "QUOTE \<notin> set g2" using skip_lit_rest_subset[OF Some] assms(2) by auto
  show ?thesis
    by (simp add: clause_at_quote_split[OF assms(1)] Some skip_notquote_all[OF nq]
          skip_quote_simps del: skip_lit.simps)
qed

lemma clause_at_no_quote:
  assumes "QUOTE \<notin> set t"
  shows "clause_at t = None"
proof (cases "scan_prefix t")
  case None
  then show ?thesis by (simp add: clause_at_def)
next
  case (Some a)
  have "QUOTE \<notin> set a" using scan_prefix_rest_subset[OF Some] assms by auto
  then have "skip_lit (QUOTE # ''file:/'') a = None"
    by (cases a) auto
  then show ?thesis using Some by (simp add: clause_at_def del: skip_lit.simps)
qed

lemma clause_at_quotes:
  assumes "clause_at t = Some r"
  shows "\<exists>u v w. t = u @ QUOTE # v @ QUOTE # w \<and> QUOTE \<notin> set u \<and> QUOTE \<notin> set v"
proof -
  have "QUOTE \<in> set t" using assms clause_at_no_quote by fastforce
  then obtain u r1 where t: "t = u @ QUOTE # r1" "QUOTE \<notin> set u"
    by (auto dest: split_list_first)
  have "QUOTE \<in> set r1" using assms t clause_at_one_quote by fastforce
  then obtain v w where "r1 = v @ QUOTE # w" "QUOTE \<notin> set v"
    by (auto dest: split_list_first)
  then show ?thesis using t by auto
qed

subsection \<open>What a scan returns\<close>

lemma skip_lit_iff:
  "skip_lit w s = Some a \<longleftrightarrow> (\<exists>x. s = x @ a \<and> list_all2 ieq w x)"
proof (induction w arbitrary: s)
  case Nil
  show ?case by auto
next
  case (Cons p ps)
  show ?case
  proof (cases s)
    case Nil
    then show ?thesis by simp
  next
    case (Cons c cs)
    show ?thesis
    proof
      assume "skip_lit (p # ps) s = Some a"
      then have "ieq p c" "skip_lit ps cs = Some a" using Cons by (auto split: if_splits)
      then obtain x where "cs = x @ a" "list_all2 ieq ps x" using Cons.IH by blast
      then have "s = (c # x) @ a \<and> list_all2 ieq (p # ps) (c # x)"
        using Cons \<open>ieq p c\<close> by simp
      then show "\<exists>x. s = x @ a \<and> list_all2 ieq (p # ps) x" by blast
    next
      assume "\<exists>x. s = x @ a \<and> list_all2 ieq (p # ps) x"
      then obtain x where x: "s = x @ a" "list_all2 ieq (p # ps) x" by blast
      then obtain d ds where d: "x = d # ds" "ieq p d" "list_all2 ieq ps ds"
        by (cases x) auto
      then have "cs = ds @ a" "c = d" using x Cons by auto
      then have "skip_lit ps cs = Some a" using d Cons.IH by blast
      then show "skip_lit (p # ps) s = Some a" using Cons d \<open>c = d\<close> by simp
    qed
  qed
qed

lemma stops_dropWhile: "stops C (dropWhile (in_class C) cs)"
  by (induction cs) (auto simp: stops_def)

lemma skip_class1_iff:
  "skip_class1 C s = Some a \<longleftrightarrow> (\<exists>x. s = x @ a \<and> run1 C x \<and> stops C a)"
proof
  assume h: "skip_class1 C s = Some a"
  then obtain c cs where s: "s = c # cs" "in_class C c" "a = dropWhile (in_class C) cs"
    by (cases s) (auto simp: skip_class1_def split: if_splits)
  have "s = (c # takeWhile (in_class C) cs) @ a" using s by simp
  moreover have "run1 C (c # takeWhile (in_class C) cs)"
    using s by (auto simp: run1_def dest: set_takeWhileD)
  moreover have "stops C a"
    using s(3) by (simp add: stops_dropWhile)
  ultimately show "\<exists>x. s = x @ a \<and> run1 C x \<and> stops C a" by blast
next
  assume "\<exists>x. s = x @ a \<and> run1 C x \<and> stops C a"
  then obtain x where x: "s = x @ a" "run1 C x" "stops C a" by blast
  then obtain c cs where c: "x = c # cs" "in_class C c" "\<forall>d \<in> set cs. in_class C d"
    by (cases x) (auto simp: run1_def)
  have "dropWhile (in_class C) (cs @ a) = a"
    using c(3) x(3) by (cases a) (auto simp: stops_def dropWhile_append)
  then show "skip_class1 C s = Some a" using x c by (simp add: skip_class1_def)
qed

subsection \<open>The third group\<close>

lemma scan_suffix_shape:
  assumes "scan_suffix w = Some (g3, g4, rest)"
  shows "w = g3 @ rest \<and> suffix_shape g3 g4 \<and> stops WordChar rest"
proof -
  from assms obtain a b c where
    a: "skip_class1 Whitespace w = Some a" and b: "skip_lit ''AS'' a = Some b"
    and c: "skip_class1 Whitespace b = Some c" and d: "skip_class1 WordChar c = Some rest"
    and g3: "g3 = take (length w - length rest) w" and g4: "g4 = take (length c - length rest) c"
    by (auto simp: scan_suffix_def Option.bind_eq_Some_conv simp del: skip_lit.simps)
  from a obtain x1 where x1: "w = x1 @ a" "run1 Whitespace x1" by (auto simp: skip_class1_iff)
  from b obtain x2 where x2: "a = x2 @ b" "list_all2 ieq ''AS'' x2" by (auto simp: skip_lit_iff)
  from c obtain x3 where x3: "b = x3 @ c" "run1 Whitespace x3" by (auto simp: skip_class1_iff)
  from d obtain x4 where x4: "c = x4 @ rest" "run1 WordChar x4" "stops WordChar rest"
    by (auto simp: skip_class1_iff)
  have "g4 = x4" using g4 x4 by simp
  moreover have "g3 = x1 @ x2 @ x3 @ x4" using g3 x1 x2 x3 x4 by simp
  moreover have "w = (x1 @ x2 @ x3 @ x4) @ rest" using x1 x2 x3 x4 by simp
  ultimately show ?thesis using x1 x2 x3 x4 by (auto simp: suffix_shape_def)
qed

lemma ieq_A_not_space: "ieq (CHR ''A'') c \<Longrightarrow> \<not> is_space c"
  using space_not_ieq[of c "CHR ''A''"] by auto

lemma word_not_space: "is_word c \<Longrightarrow> \<not> is_space c"
  using space_not_word by blast

lemma in_class_WordChar: "in_class WordChar = is_word"
  by (rule ext) simp

lemma scan_suffix_extend:
  assumes "suffix_shape g3 g4"
  shows "scan_suffix (g3 @ e) =
     Some (g3 @ takeWhile is_word e, g4 @ takeWhile is_word e, dropWhile is_word e)"
proof -
  from assms obtain x1 x2 x3 where s: "g3 = x1 @ x2 @ x3 @ g4" "run1 Whitespace x1"
    "list_all2 ieq ''AS'' x2" "run1 Whitespace x3" "run1 WordChar g4"
    by (auto simp: suffix_shape_def)
  let ?t = "takeWhile is_word e" and ?d = "dropWhile is_word e"
  from s(3) obtain a1 a2 where x2: "x2 = [a1, a2]" "ieq (CHR ''A'') a1"
    by (auto simp: list_all2_Cons1)
  from s(5) obtain c4 cs4 where g4: "g4 = c4 # cs4" "is_word c4"
    by (cases g4) (auto simp: run1_def)
  have a: "skip_class1 Whitespace (g3 @ e) = Some (x2 @ x3 @ g4 @ e)"
    unfolding skip_class1_iff
    by (rule exI[of _ x1]) (simp add: s x2 stops_def ieq_A_not_space)
  have b: "skip_lit ''AS'' (x2 @ x3 @ g4 @ e) = Some (x3 @ g4 @ e)"
    unfolding skip_lit_iff using s(3) by (intro exI[of _ x2]) simp
  have c: "skip_class1 Whitespace (x3 @ g4 @ e) = Some (g4 @ e)"
    unfolding skip_class1_iff
    by (rule exI[of _ x3]) (simp add: s g4 stops_def word_not_space)
  have "run1 WordChar (g4 @ ?t)"
    using s(5) by (auto simp: run1_def dest: set_takeWhileD)
  moreover have "stops WordChar ?d" using stops_dropWhile[of WordChar e] by (simp only: in_class_WordChar)
  ultimately have d: "skip_class1 WordChar (g4 @ e) = Some ?d"
    unfolding skip_class1_iff by (intro exI[of _ "g4 @ ?t"]) simp
  have le: "length ?d \<le> length e" by (simp add: length_dropWhile_le)
  have len: "length e - length ?d = length ?t"
    using takeWhile_dropWhile_id[of is_word e] by (metis add_diff_cancel_right' length_append)
  have t1: "take (length (g3 @ e) - length ?d) (g3 @ e) = g3 @ ?t"
    using le len by (simp add: takeWhile_eq_take[symmetric] )
  have t2: "take (length (g4 @ e) - length ?d) (g4 @ e) = g4 @ ?t"
    using le len by (simp add: takeWhile_eq_take[symmetric])
  show ?thesis
    unfolding scan_suffix_def
    by (simp only: a b c d Option.bind.simps t1 t2)
qed

subsection \<open>A clause that starts earlier ends earlier\<close>

lemma append_barrier_split:
  assumes "b @ l # y = p @ q" "l \<notin> set p"
  shows "\<exists>q'. b = p @ q' \<and> q = q' @ l # y"
proof -
  from assms(1)[unfolded append_eq_append_conv2]
  consider us where "b = p @ us" "us @ l # y = q"
    | us where "b @ us = p" "l # y = us @ q"
    by blast
  then show ?thesis
  proof cases
    case 1
    then show ?thesis by auto
  next
    case 2
    show ?thesis
    proof (cases us)
      case Nil
      then show ?thesis using 2 by auto
    next
      case (Cons c cs)
      then have "l \<in> set p" using 2 by auto
      then show ?thesis using assms(2) by simp
    qed
  qed
qed

lemma ieq_L_word: "ieq (CHR ''L'') l \<Longrightarrow> is_word l"
  by (auto simp: ieq_iff lower_code_def is_word_def Let_def split: if_splits)

lemma ieq_L_not_space: "ieq (CHR ''L'') l \<Longrightarrow> \<not> is_space l"
  using space_not_L by blast

lemma ieq_L_not_AS: "ieq (CHR ''L'') l \<Longrightarrow> list_all2 ieq ''AS'' x \<Longrightarrow> l \<notin> set x"
  by (auto simp: list_all2_Cons1 ieq_iff)

lemma scan_suffix_barrier:
  assumes "scan_suffix (b @ l # X) = Some r" "ieq (CHR ''L'') l"
  shows "scan_suffix (b @ l # X') \<noteq> None"
proof -
  obtain g3 g4 rest where r: "r = (g3, g4, rest)" by (cases r) auto
  from scan_suffix_shape[OF assms(1)[unfolded r]]
  have w: "b @ l # X = g3 @ rest" and sh: "suffix_shape g3 g4" by auto
  from sh obtain x1 x2 x3 where s: "g3 = x1 @ x2 @ x3 @ g4" "run1 Whitespace x1"
    "list_all2 ieq ''AS'' x2" "run1 Whitespace x3" "run1 WordChar g4"
    by (auto simp: suffix_shape_def)
  let ?p = "x1 @ x2 @ x3"
  have "l \<notin> set x1" "l \<notin> set x3"
    using s(2,4) ieq_L_not_space[OF assms(2)] by (auto simp: run1_def)
  moreover have "l \<notin> set x2" by (rule ieq_L_not_AS[OF assms(2) s(3)])
  ultimately have nl: "l \<notin> set ?p" by simp
  have eq: "b @ l # X = ?p @ (g4 @ rest)" unfolding w s(1) by simp
  from append_barrier_split[OF eq nl]
  obtain q' where q: "b = ?p @ q'" "g4 @ rest = q' @ l # X" by (elim exE conjE)
  from q(2)[unfolded append_eq_append_conv2]
  consider us where "g4 = q' @ us" "us @ rest = l # X"
    | us where "g4 @ us = q'" "rest = us @ l # X"
    by blast
  then show ?thesis
  proof cases
    case 1
    have "run1 WordChar (q' @ [l])"
      using s(5) 1(1) ieq_L_word[OF assms(2)] by (auto simp: run1_def)
    then have "suffix_shape (b @ [l]) (q' @ [l])"
      unfolding suffix_shape_def q(1) using s(2,3,4)
      by (intro exI[of _ x1] exI[of _ x2] exI[of _ x3]) simp
    from scan_suffix_extend[OF this, of X'] show ?thesis by simp
  next
    case 2
    have "b = g3 @ us" unfolding q(1) s(1) 2(1)[symmetric] by simp
    then have "b @ l # X' = g3 @ (us @ l # X')" by simp
    then show ?thesis using scan_suffix_extend[OF sh, of "us @ l # X'"] by simp
  qed
qed

lemma scan_suffix_needs_space: "\<not> is_space c \<Longrightarrow> scan_suffix (c # Z) = None"
  by (simp add: scan_suffix_def skip_class1_def)

lemma no_earlier_match:
  assumes "b \<noteq> []" "scan_prefix g1 = Some []" "\<not> is_space c"
    "clause_at (b @ g1 @ QUOTE # c # Z) = Some r"
  shows "clause_at (b @ g1 @ Z') \<noteq> None"
proof -
  from scan_prefix_shape[OF assms(2)] obtain l x where g1: "g1 = l # x" "ieq (CHR ''L'') l"
    by auto
  have nq: "QUOTE \<notin> set g1" using scan_prefix_no_quote[OF assms(2)] .
  show ?thesis
  proof (cases "QUOTE \<in> set b")
    case False
    then have "QUOTE \<notin> set (b @ g1)" using nq by simp
    from clause_at_quote_split[OF this, of "c # Z"] assms(4)
    have "scan_prefix (b @ g1) = Some []" by (auto split: if_splits)
    then have "b = []" using assms(2) scan_prefix_proper_suffix by blast
    then show ?thesis using assms(1) by simp
  next
    case True
    then obtain b1 b2 where b: "b = b1 @ QUOTE # b2" "QUOTE \<notin> set b1"
      by (auto dest: split_list_first)
    show ?thesis
    proof (cases "QUOTE \<in> set b2")
      case False
      then have "QUOTE \<notin> set (b2 @ g1)" using nq by simp
      from clause_at_two_quotes[OF b(2) this, of "c # Z"] assms(4) b(1)
      show ?thesis
        by (auto simp: scan_suffix_needs_space[OF assms(3)] split: if_splits option.splits)
    next
      case True
      then obtain b3 b4 where b2: "b2 = b3 @ QUOTE # b4" "QUOTE \<notin> set b3"
        by (auto dest: split_list_first)
      have t: "b @ g1 @ QUOTE # c # Z = b1 @ QUOTE # b3 @ QUOTE # (b4 @ l # (x @ QUOTE # c # Z))"
        using b b2 g1 by simp
      have t': "b @ g1 @ Z' = b1 @ QUOTE # b3 @ QUOTE # (b4 @ l # (x @ Z'))"
        using b b2 g1 by simp
      from assms(4)[unfolded t clause_at_two_quotes[OF b(2) b2(2)]]
      obtain g2 r' where c: "scan_prefix b1 = Some []" "skip_lit ''file:/'' b3 = Some g2" "g2 \<noteq> []"
        "scan_suffix (b4 @ l # (x @ QUOTE # c # Z)) = Some r'"
        by (auto split: if_splits option.splits simp del: skip_lit.simps)
      from scan_suffix_barrier[OF c(4) g1(2), of "x @ Z'"]
      obtain r'' where "scan_suffix (b4 @ l # (x @ Z')) = Some r''" by auto
      then show ?thesis
        unfolding t' clause_at_two_quotes[OF b(2) b2(2)] using c
        by (auto split: prod.splits simp del: skip_lit.simps)
    qed
  qed
qed

subsection \<open>The leftmost match\<close>

lemma search_from_first:
  assumes "match_here r t = Some (rest, g)"
    "\<forall>a b. pre = a @ b \<and> b \<noteq> [] \<longrightarrow> match_here r (b @ t) = None"
  shows "search_from r i (pre @ t) =
     Some \<lparr>m_start = i + length pre, m_end = i + length pre + (length t - length rest), m_groups = g\<rparr>"
  using assms(2)
proof (induction pre arbitrary: i)
  case Nil
  show ?case using assms(1) by (cases t) auto
next
  case (Cons c cs)
  have "match_here r ((c # cs) @ t) = None" using Cons.prems by blast
  moreover have "\<forall>a b. cs = a @ b \<and> b \<noteq> [] \<longrightarrow> match_here r (b @ t) = None"
  proof (intro allI impI)
    fix a b assume "cs = a @ b \<and> b \<noteq> []"
    then have "c # cs = (c # a) @ b \<and> b \<noteq> []" by simp
    then show "match_here r (b @ t) = None" using Cons.prems by blast
  qed
  ultimately show ?case using Cons.IH[of "Suc i"] by simp
qed

lemma search_from_Some:
  assumes "search_from r i s = Some m"
  shows "\<exists>pre t rest g. s = pre @ t \<and> match_here r t = Some (rest, g)
     \<and> m = \<lparr>m_start = i + length pre, m_end = i + length pre + (length t - length rest), m_groups = g\<rparr>
     \<and> (\<forall>a b. pre = a @ b \<and> b \<noteq> [] \<longrightarrow> match_here r (b @ t) = None)"
  using assms
proof (induction s arbitrary: i)
  case Nil
  then obtain rest g where "match_here r [] = Some (rest, g)"
    "m = \<lparr>m_start = i, m_end = i, m_groups = g\<rparr>"
    by (auto split: option.splits)
  then show ?case
    by - (rule exI[of _ "[]"], rule exI[of _ "[]"], rule exI[of _ rest], rule exI[of _ g], simp)
next
  case (Cons c cs)
  show ?case
  proof (cases "match_here r (c # cs)")
    case (Some x)
    obtain rest g where x: "x = (rest, g)" by (cases x) auto
    have "m = \<lparr>m_start = i, m_end = i + (length (c # cs) - length rest), m_groups = g\<rparr>"
      using Cons.prems Some x by simp
    then show ?thesis using Some x
      by - (rule exI[of _ "[]"], rule exI[of _ "c # cs"], rule exI[of _ rest], rule exI[of _ g], simp)
  next
    case None
    then have "search_from r (Suc i) cs = Some m" using Cons.prems by simp
    from Cons.IH[OF this] obtain pre t rest g where
      p: "cs = pre @ t" "match_here r t = Some (rest, g)"
         "m = \<lparr>m_start = Suc i + length pre, m_end = Suc i + length pre + (length t - length rest),
              m_groups = g\<rparr>"
         "\<forall>a b. pre = a @ b \<and> b \<noteq> [] \<longrightarrow> match_here r (b @ t) = None"
      by blast
    have "\<forall>a b. c # pre = a @ b \<and> b \<noteq> [] \<longrightarrow> match_here r (b @ t) = None"
    proof (intro allI impI)
      fix a b assume e: "c # pre = a @ b \<and> b \<noteq> []"
      show "match_here r (b @ t) = None"
      proof (cases a)
        case Nil
        then have "b = c # pre" using e by simp
        then show ?thesis using None p(1) by simp
      next
        case (Cons d ds)
        then have "pre = ds @ b \<and> b \<noteq> []" using e by simp
        then show ?thesis using p(4) by blast
      qed
    qed
    then show ?thesis using p
      by - (rule exI[of _ "c # pre"], rule exI[of _ t], rule exI[of _ rest], rule exI[of _ g], simp)
  qed
qed

subsection \<open>The shape of a clause\<close>

lemma stops_word_take: "stops WordChar e \<Longrightarrow> takeWhile is_word e = []"
  by (cases e) (auto simp: stops_def)

lemma stops_word_drop: "stops WordChar e \<Longrightarrow> dropWhile is_word e = e"
  by (cases e) (auto simp: stops_def)

lemma list_all2_ieq_no_quote:
  "list_all2 ieq w x \<Longrightarrow> QUOTE \<notin> set w \<Longrightarrow> QUOTE \<notin> set x"
  by (induction rule: list_all2_induct) auto

lemma lit_file_no_quote: "list_all2 ieq ''file:/'' fl \<Longrightarrow> QUOTE \<notin> set fl"
  by (erule list_all2_ieq_no_quote) simp

lemma lit_file_head:
  assumes "list_all2 ieq ''file:/'' fl"
  shows "\<exists>c cs. fl = c # cs \<and> \<not> is_space c"
proof -
  from assms obtain c cs where c: "fl = c # cs" "ieq (CHR ''f'') c"
    by (cases fl) auto
  have "\<not> is_space c" using space_not_ieq[of c "CHR ''f''"] c(2) by auto
  then show ?thesis using c(1) by blast
qed

lemma clause_at_shape:
  assumes "clause_at t = Some (g1, g2, g3, g4, rest)"
  shows "\<exists>fl. t = g1 @ QUOTE # fl @ g2 @ QUOTE # g3 @ rest \<and> scan_prefix g1 = Some []
     \<and> list_all2 ieq ''file:/'' fl \<and> g2 \<noteq> [] \<and> QUOTE \<notin> set g2
     \<and> suffix_shape g3 g4 \<and> stops WordChar rest"
proof -
  from clause_at_quotes[OF assms] obtain u v w where
    t: "t = u @ QUOTE # v @ QUOTE # w" "QUOTE \<notin> set u" "QUOTE \<notin> set v" by blast
  from assms[unfolded t(1) clause_at_two_quotes[OF t(2,3)]]
  have c: "scan_prefix u = Some []" "skip_lit ''file:/'' v = Some g2" "g2 \<noteq> []"
    "scan_suffix w = Some (g3, g4, rest)" "u = g1"
    by (auto split: if_splits option.splits simp del: skip_lit.simps)
  from c(2) obtain fl where fl: "v = fl @ g2" "list_all2 ieq ''file:/'' fl"
    unfolding skip_lit_iff by blast
  from scan_suffix_shape[OF c(4)] have w: "w = g3 @ rest" "suffix_shape g3 g4" "stops WordChar rest"
    by auto
  have "t = g1 @ QUOTE # fl @ g2 @ QUOTE # g3 @ rest" using t(1) c(5) fl(1) w(1) by simp
  moreover have "QUOTE \<notin> set g2" using t(3) fl(1) by simp
  ultimately show ?thesis using c(1,3,5) fl(2) w(2,3) by blast
qed

lemma clause_at_build:
  assumes "scan_prefix g1 = Some []" "list_all2 ieq ''file:/'' fl" "g2 \<noteq> []" "QUOTE \<notin> set g2"
    "suffix_shape g3 g4"
  shows "clause_at (g1 @ QUOTE # fl @ g2 @ QUOTE # g3 @ e) =
     Some (g1, g2, g3 @ takeWhile is_word e, g4 @ takeWhile is_word e, dropWhile is_word e)"
proof -
  have u: "QUOTE \<notin> set g1" using scan_prefix_no_quote[OF assms(1)] .
  have v: "QUOTE \<notin> set (fl @ g2)" using lit_file_no_quote[OF assms(2)] assms(4) by simp
  have l: "skip_lit ''file:/'' (fl @ g2) = Some g2"
    unfolding skip_lit_iff using assms(2) by blast
  have "clause_at (g1 @ QUOTE # (fl @ g2) @ QUOTE # (g3 @ e)) =
     Some (g1, g2, g3 @ takeWhile is_word e, g4 @ takeWhile is_word e, dropWhile is_word e)"
    unfolding clause_at_two_quotes[OF u v]
    by (simp add: assms(1,3) l scan_suffix_extend[OF assms(5)] del: skip_lit.simps)
  then show ?thesis by simp
qed

lemma transfer_no_earlier:
  assumes "\<forall>a b. pre = a @ b \<and> b \<noteq> [] \<longrightarrow> clause_at (b @ g1 @ Z) = None"
    "scan_prefix g1 = Some []" "\<not> is_space c"
  shows "\<forall>a b. pre = a @ b \<and> b \<noteq> [] \<longrightarrow> clause_at (b @ g1 @ QUOTE # c # Z') = None"
proof (intro allI impI)
  fix a b assume h: "pre = a @ b \<and> b \<noteq> []"
  show "clause_at (b @ g1 @ QUOTE # c # Z') = None"
  proof (rule ccontr)
    assume "clause_at (b @ g1 @ QUOTE # c # Z') \<noteq> None"
    then obtain r where r: "clause_at (b @ g1 @ QUOTE # c # Z') = Some r" by blast
    have ne: "b \<noteq> []" using h by simp
    have "clause_at (b @ g1 @ Z) \<noteq> None"
      by (rule no_earlier_match[OF ne assms(2,3) r])
    moreover have "clause_at (b @ g1 @ Z) = None"
      using assms(1)[rule_format, of a b] h by simp
    ultimately show False by simp
  qed
qed

subsection \<open>Replacement text without a backslash\<close>

lemma tokenize_plain: "BACKSLASH \<notin> set s \<Longrightarrow> tokenize s = Some (map Chr s)"
  by (induction s rule: tokenize.induct) auto

lemma parse_tokens_plain: "parse_tokens n (map Chr s) = Some (map TLit s)"
  by (induction s) (auto simp: lappend_def)

lemma parse_template_plain: "BACKSLASH \<notin> set s \<Longrightarrow> parse_template s n = Some (map TLit s)"
  by (simp add: parse_template_def tokenize_plain parse_tokens_plain)

lemma expand_template_plain: "expand_template (map TLit s) m str = s"
  by (induction s) (auto simp: expand_template_def)

lemma pattern_sub_plain:
  assumes "BACKSLASH \<notin> set repl"
  shows "pattern_sub r repl s =
     (case search r s of
        None \<Rightarrow> Some s
      | Some m \<Rightarrow> Some (take (m_start m) s @ repl @ drop (m_end m) s))"
  by (simp add: pattern_sub_def parse_template_plain[OF assms] expand_template_plain
        split: option.splits)

lemma split_on_subset: "w \<in> set (split_on d s) \<Longrightarrow> set w \<subseteq> set s"
proof (induction s arbitrary: w)
  case Nil
  then show ?case by simp
next
  case (Cons c cs)
  show ?case
  proof (cases "c = d")
    case True
    then show ?thesis using Cons by auto
  next
    case False
    show ?thesis
    proof (cases "split_on d cs")
      case Nil
      then show ?thesis using Cons.prems False by simp
    next
      case (Cons a list)
      have "set a \<subseteq> set cs" using Cons.IH[of a] Cons by simp
      moreover have "\<And>v. v \<in> set list \<Longrightarrow> set v \<subseteq> set cs"
        using Cons.IH Cons by simp
      ultimately show ?thesis using Cons.prems False Cons by auto
    qed
  qed
qed

lemma path_name_subset: "set (path_name s) \<subseteq> set s"
proof (cases "filter (\<lambda>x. x \<noteq> [] \<and> x \<noteq> ''.'') (split_on (CHR ''/'') s)")
  case Nil
  then show ?thesis by (simp add: path_name_def)
next
  case (Cons x xs)
  have "last (x # xs) \<in> set (x # xs)" by (rule last_in_set) simp
  then have "last (x # xs) \<in> set (split_on (CHR ''/'') s)"
    unfolding Cons[symmetric] by simp
  from split_on_subset[OF this] show ?thesis using Cons by (simp add: path_name_def)
qed

lemma ieq_backslash: "ieq p BACKSLASH \<longleftrightarrow> p = BACKSLASH"
proof -
  have "(of_char p :: nat) = 92 \<longleftrightarrow> p = BACKSLASH"
  proof -
    have "(of_char p :: nat) = of_char BACKSLASH \<longleftrightarrow> p = BACKSLASH" by (simp only: of_char_eq_iff)
    then show ?thesis by simp
  qed
  then show ?thesis
    by (auto simp: ieq_iff lower_code_def split: if_splits)
qed

lemma eats_ws_plain: "eats plain (skip_class1 Whitespace)"
  by (rule eats_skip_class1) (auto simp: is_space_def Let_def)

lemma eats_lit_plain:
  assumes "BACKSLASH \<notin> set w"
  shows "eats plain (skip_lit w)"
proof (rule eats_skip_lit, intro ballI allI impI)
  fix p c assume p: "p \<in> set w" and i: "ieq p c"
  show "c \<noteq> BACKSLASH"
  proof
    assume "c = BACKSLASH"
    then have "p = BACKSLASH" using i by (simp add: ieq_backslash)
    then show False using p assms by simp
  qed
qed

lemma eats_scan_from_plain: "eats plain scan_from"
  unfolding scan_from_def
  by (intro eats_bind eats_ws_plain eats_lit_plain) simp_all

lemma eats_scan_prefix_plain: "eats plain scan_prefix"
  unfolding scan_prefix_def
  by (intro eats_bind eats_case eats_ws_plain eats_lit_plain eats_scan_from_plain) simp_all

lemma scan_prefix_plain:
  assumes "scan_prefix g1 = Some []"
  shows "BACKSLASH \<notin> set g1"
  using eats_scan_prefix_plain assms unfolding eats_def by fastforce

lemma list_all2_ieq_plain:
  "list_all2 ieq w x \<Longrightarrow> BACKSLASH \<notin> set w \<Longrightarrow> BACKSLASH \<notin> set x"
  by (induction rule: list_all2_induct) (auto simp: ieq_backslash)

lemma backslash_not_word: "\<not> is_word BACKSLASH"
  by (simp add: is_word_def Let_def)

lemma backslash_not_space: "\<not> is_space BACKSLASH"
  by (simp add: is_space_def Let_def)

lemma suffix_shape_plain:
  assumes "suffix_shape g3 g4"
  shows "BACKSLASH \<notin> set g3"
proof -
  from assms obtain x1 x2 x3 where s: "g3 = x1 @ x2 @ x3 @ g4" "run1 Whitespace x1"
    "list_all2 ieq ''AS'' x2" "run1 Whitespace x3" "run1 WordChar g4"
    by (auto simp: suffix_shape_def)
  have "BACKSLASH \<notin> set x1" using s(2) backslash_not_space by (auto simp: run1_def)
  moreover have "BACKSLASH \<notin> set x2" using list_all2_ieq_plain[OF s(3)] by simp
  moreover have "BACKSLASH \<notin> set x3" using s(4) backslash_not_space by (auto simp: run1_def)
  moreover have "BACKSLASH \<notin> set g4" using s(5) backslash_not_word by (auto simp: run1_def)
  ultimately show ?thesis using s(1) by simp
qed

lemma stops_butlast: "stops WordChar rest \<Longrightarrow> takeWhile is_word (butlast rest) = []"
  by (cases rest) (auto simp: stops_def)

lemma search_clause_Some:
  assumes "search pattern_load_csv t = Some m"
  shows "\<exists>pre g1 fl g2 g3 g4 rest.
     t = pre @ g1 @ QUOTE # fl @ g2 @ QUOTE # g3 @ rest
     \<and> scan_prefix g1 = Some [] \<and> list_all2 ieq ''file:/'' fl \<and> g2 \<noteq> [] \<and> QUOTE \<notin> set g2
     \<and> suffix_shape g3 g4 \<and> stops WordChar rest
     \<and> m = \<lparr>m_start = length pre,
             m_end = length pre + length (g1 @ QUOTE # fl @ g2 @ QUOTE # g3),
             m_groups = [(3, g3), (4, g4), (2, g2), (1, g1)]\<rparr>
     \<and> (\<forall>a b. pre = a @ b \<and> b \<noteq> [] \<longrightarrow>
           clause_at (b @ g1 @ QUOTE # fl @ g2 @ QUOTE # g3 @ rest) = None)"
proof -
  from search_from_Some[OF assms[unfolded search_def]] obtain pre u rest g where
    s: "t = pre @ u" "match_here pattern_load_csv u = Some (rest, g)"
      "m = \<lparr>m_start = 0 + length pre, m_end = 0 + length pre + (length u - length rest), m_groups = g\<rparr>"
      "\<forall>a b. pre = a @ b \<and> b \<noteq> [] \<longrightarrow> match_here pattern_load_csv (b @ u) = None"
    by (elim exE conjE)
  from s(2)[unfolded match_here_clause_at] obtain g1 g2 g3 g4 where
    c: "clause_at u = Some (g1, g2, g3, g4, rest)" "g = [(3, g3), (4, g4), (2, g2), (1, g1)]"
    by (auto simp: map_option_case split: option.splits)
  from clause_at_shape[OF c(1)] obtain fl where
    fl: "u = g1 @ QUOTE # fl @ g2 @ QUOTE # g3 @ rest" "scan_prefix g1 = Some []"
      "list_all2 ieq ''file:/'' fl" "g2 \<noteq> []" "QUOTE \<notin> set g2"
      "suffix_shape g3 g4" "stops WordChar rest"
    by (elim exE conjE)
  have t: "t = pre @ g1 @ QUOTE # fl @ g2 @ QUOTE # g3 @ rest"
    unfolding s(1) fl(1) ..
  have m: "m = \<lparr>m_start = length pre,
             m_end = length pre + length (g1 @ QUOTE # fl @ g2 @ QUOTE # g3),
             m_groups = [(3, g3), (4, g4), (2, g2), (1, g1)]\<rparr>"
    unfolding s(3) c(2) fl(1) by simp
  have n: "\<forall>a b. pre = a @ b \<and> b \<noteq> [] \<longrightarrow>
           clause_at (b @ g1 @ QUOTE # fl @ g2 @ QUOTE # g3 @ rest) = None"
  proof (intro allI impI)
    fix a b assume h: "pre = a @ b \<and> b \<noteq> []"
    have "match_here pattern_load_csv (b @ u) = None" using s(4)[rule_format, OF h] .
    then show "clause_at (b @ g1 @ QUOTE # fl @ g2 @ QUOTE # g3 @ rest) = None"
      unfolding match_here_clause_at fl(1) by simp
  qed
  show ?thesis
    by (rule exI[of _ pre], rule exI[of _ g1], rule exI[of _ fl], rule exI[of _ g2],
        rule exI[of _ g3], rule exI[of _ g4], rule exI[of _ rest])
       (intro conjI t fl(2-7) m n)
qed

lemma search_clause_build:
  assumes "scan_prefix g1 = Some []" "list_all2 ieq ''file:/'' fl" "g2 \<noteq> []" "QUOTE \<notin> set g2"
    "suffix_shape g3 g4"
    "\<forall>a b. pre = a @ b \<and> b \<noteq> [] \<longrightarrow> clause_at (b @ g1 @ Z) = None"
  shows "search pattern_load_csv (pre @ g1 @ QUOTE # fl @ g2 @ QUOTE # g3 @ e) =
     Some \<lparr>m_start = length pre,
           m_end = length pre + length (g1 @ QUOTE # fl @ g2 @ QUOTE # g3) + length (takeWhile is_word e),
           m_groups = [(3, g3 @ takeWhile is_word e), (4, g4 @ takeWhile is_word e), (2, g2), (1, g1)]\<rparr>"
proof -
  let ?u = "g1 @ QUOTE # fl @ g2 @ QUOTE # g3 @ e"
  from lit_file_head[OF assms(2)] obtain c cs where c: "fl = c # cs" "\<not> is_space c"
    by (elim exE conjE)
  have mh: "match_here pattern_load_csv ?u =
     Some (dropWhile is_word e, [(3, g3 @ takeWhile is_word e), (4, g4 @ takeWhile is_word e), (2, g2), (1, g1)])"
    unfolding match_here_clause_at clause_at_build[OF assms(1-5)] by simp
  have ne: "\<forall>a b. pre = a @ b \<and> b \<noteq> [] \<longrightarrow> match_here pattern_load_csv (b @ ?u) = None"
  proof (intro allI impI)
    fix a b assume h: "pre = a @ b \<and> b \<noteq> []"
    have "clause_at (b @ g1 @ QUOTE # c # (cs @ g2 @ QUOTE # g3 @ e)) = None"
      using transfer_no_earlier[OF assms(6,1) c(2), rule_format, OF h] .
    then show "match_here pattern_load_csv (b @ ?u) = None"
      unfolding match_here_clause_at c(1) by simp
  qed
  have len: "length ?u - length (dropWhile is_word e) =
     length (g1 @ QUOTE # fl @ g2 @ QUOTE # g3) + length (takeWhile is_word e)"
  proof -
    have "length e = length (takeWhile is_word e) + length (dropWhile is_word e)"
      by (metis length_append takeWhile_dropWhile_id)
    then show ?thesis by simp
  qed
  show ?thesis
    unfolding search_def search_from_first[OF mh ne] len by simp
qed

subsection \<open>Substitution and the second search\<close>

lemma ieq_refl [simp]: "ieq c c"
  by (simp add: ieq_def)

lemma list_all2_ieq_refl: "list_all2 ieq w w"
  by (induction w) simp_all

lemma str_nat_BATCH_SIZE: "str_nat BATCH_SIZE = ''1000''"
  by code_simp

lemma strip_Nil [simp]: "strip [] = []"
  by (simp add: strip_def)

lemma replacement_plain:
  assumes "scan_prefix g1 = Some []" "suffix_shape g3 g4" "BACKSLASH \<notin> set n"
  shows "BACKSLASH \<notin> set (g1 @ [QUOTE] @ ''file:///'' @ n @ [QUOTE] @ g3)"
  using scan_prefix_plain[OF assms(1)] suffix_shape_plain[OF assms(2)] assms(3) by simp

lemma sub_clause:
  assumes "scan_prefix g1 = Some []" "list_all2 ieq ''file:/'' fl" "g2 \<noteq> []" "QUOTE \<notin> set g2"
    "suffix_shape g3 g4"
    "\<forall>a b. pre = a @ b \<and> b \<noteq> [] \<longrightarrow> clause_at (b @ g1 @ Z) = None"
    "BACKSLASH \<notin> set repl"
  shows "pattern_sub pattern_load_csv repl (pre @ g1 @ QUOTE # fl @ g2 @ QUOTE # g3 @ e)
     = Some (pre @ repl @ dropWhile is_word e)"
proof -
  let ?C = "g1 @ QUOTE # fl @ g2 @ QUOTE # g3"
  let ?k = "length (takeWhile is_word e)"
  have t: "pre @ g1 @ QUOTE # fl @ g2 @ QUOTE # g3 @ e = pre @ ?C @ e" by simp
  have a: "take (length pre) (pre @ ?C @ e) = pre" by simp
  have "drop (length pre + length ?C + ?k) (pre @ ?C @ e) = drop ?k e"
    by (simp only: drop_append) simp
  then have b: "drop (length pre + length ?C + ?k) (pre @ ?C @ e) = dropWhile is_word e"
    by (simp only: dropWhile_eq_drop)
  show ?thesis
    unfolding pattern_sub_plain[OF assms(7)] search_clause_build[OF assms(1-6)]
    unfolding t using a b by simp
qed

lemma research_clause:
  assumes "scan_prefix g1 = Some []" "QUOTE \<notin> set g2" "suffix_shape g3 g4"
    "\<forall>a b. pre = a @ b \<and> b \<noteq> [] \<longrightarrow> clause_at (b @ g1 @ Z) = None"
  shows "search pattern_load_csv
           (pre @ (g1 @ [QUOTE] @ ''file:///'' @ path_name g2 @ [QUOTE] @ g3) @ e)
     = Some \<lparr>m_start = length pre,
           m_end = length pre + length (g1 @ [QUOTE] @ ''file:///'' @ path_name g2 @ [QUOTE] @ g3)
                   + length (takeWhile is_word e),
           m_groups = [(3, g3 @ takeWhile is_word e), (4, g4 @ takeWhile is_word e),
                       (2, ''//'' @ path_name g2), (1, g1)]\<rparr>"
proof -
  have q: "QUOTE \<notin> set (''//'' @ path_name g2)"
    using path_name_subset[of g2] assms(2) by auto
  have n: "''//'' @ path_name g2 \<noteq> []" by simp
  have l: "list_all2 ieq ''file:/'' ''file:/''" by (rule list_all2_ieq_refl)
  have t: "pre @ (g1 @ [QUOTE] @ ''file:///'' @ path_name g2 @ [QUOTE] @ g3) @ e
     = pre @ g1 @ QUOTE # ''file:/'' @ (''//'' @ path_name g2) @ QUOTE # g3 @ e"
    by simp
  have k: "length (g1 @ [QUOTE] @ ''file:///'' @ path_name g2 @ [QUOTE] @ g3)
     = length (g1 @ QUOTE # ''file:/'' @ (''//'' @ path_name g2) @ QUOTE # g3)"
    by simp
  show ?thesis
    unfolding t k by (rule search_clause_build[OF assms(1) l n q assms(3,4)])
qed

section \<open>The rewriter: the second search and the batched text\<close>

text \<open>
  The replacement text is built from the first group, the name of the data file and the
  third group, and \<open>Pattern.sub\<close> reads it as a template: a backslash in the name of the
  data file is the start of an escape.  When no backslash occurs in that name, the
  substitution returns a text and the search of that text finds a clause, so the rewrite
  step ends neither in the branch of the failed substitution nor in the branch of the
  failed second search.
\<close>

lemma rematch_succeeds:
  assumes "search pattern_load_csv (butlast content) = Some m"
    and "BACKSLASH \<notin> set (path_name (m_group m 2))"
  shows "(\<exists>modified.
            pattern_sub pattern_load_csv
              (m_group m 1 @ [QUOTE] @ ''file:///'' @ path_name (m_group m 2) @ [QUOTE] @ m_group m 3)
              content = Some modified
            \<and> search pattern_load_csv modified \<noteq> None)
         \<and> rewrite fs p content \<noteq> SubRaised \<and> rewrite fs p content \<noteq> RematchFailed"
proof -
  from search_clause_Some[OF assms(1)] obtain pre g1 fl g2 g3 g4 rest where
    s: "butlast content = pre @ g1 @ QUOTE # fl @ g2 @ QUOTE # g3 @ rest"
      "scan_prefix g1 = Some []" "list_all2 ieq ''file:/'' fl" "g2 \<noteq> []" "QUOTE \<notin> set g2"
      "suffix_shape g3 g4" "stops WordChar rest"
      "m = \<lparr>m_start = length pre,
             m_end = length pre + length (g1 @ QUOTE # fl @ g2 @ QUOTE # g3),
             m_groups = [(3, g3), (4, g4), (2, g2), (1, g1)]\<rparr>"
      "\<forall>a b. pre = a @ b \<and> b \<noteq> [] \<longrightarrow>
           clause_at (b @ g1 @ QUOTE # fl @ g2 @ QUOTE # g3 @ rest) = None"
    by (elim exE conjE)
  let ?repl = "g1 @ [QUOTE] @ ''file:///'' @ path_name g2 @ [QUOTE] @ g3"
  let ?e = "rest @ [last content]"
  let ?modified = "pre @ ?repl @ dropWhile is_word ?e"
  have g: "m_group m 1 = g1" "m_group m 2 = g2" "m_group m 3 = g3" "m_group m 4 = g4"
    unfolding s(8) by (simp_all add: m_group_def)
  have "butlast content \<noteq> []" unfolding s(1) by simp
  then have "content \<noteq> []" by auto
  then have "content = butlast content @ [last content]" by simp
  then have c: "content = pre @ g1 @ QUOTE # fl @ g2 @ QUOTE # g3 @ ?e"
    unfolding s(1) by simp
  have bs: "BACKSLASH \<notin> set ?repl"
    using replacement_plain[OF s(2,6)] assms(2) unfolding g by simp
  have "pattern_sub pattern_load_csv ?repl (pre @ g1 @ QUOTE # fl @ g2 @ QUOTE # g3 @ ?e)
      = Some ?modified"
    by (rule sub_clause[OF s(2-6) s(9) bs])
  then have sub: "pattern_sub pattern_load_csv ?repl content = Some ?modified"
    unfolding c[symmetric] .
  have re: "search pattern_load_csv ?modified \<noteq> None"
    unfolding research_clause[OF s(2,5,6,9)] by simp
  have one: "\<exists>modified. pattern_sub pattern_load_csv
              (m_group m 1 @ [QUOTE] @ ''file:///'' @ path_name (m_group m 2) @ [QUOTE] @ m_group m 3)
              content = Some modified
            \<and> search pattern_load_csv modified \<noteq> None"
    unfolding g by (rule exI[of _ ?modified]) (intro conjI sub re)
  from re obtain m' where m': "search pattern_load_csv ?modified = Some m'" by blast
  have sub': "pattern_sub pattern_load_csv
      (g1 @ [QUOTE] @ (''file:///'' @ path_name g2) @ [QUOTE] @ g3) content = Some ?modified"
    using sub by simp
  have two: "rewrite fs p content \<noteq> SubRaised \<and> rewrite fs p content \<noteq> RematchFailed"
    unfolding rewrite_def assms(1)
    by (simp only: option.case Let_def g sub' m') (simp split: sum.splits)
  show ?thesis using one two by (rule conjI)
qed

text \<open>
  Claim C10.  The claim is that the search of the modified text always finds the clause
  again, so that the branch logged as an internal error is never taken.  A data file
  whose name is a backslash followed by \<open>047\<close>, which the script references and which
  exists beside it: the name goes into the template as it is, the template turns it into
  a quote, the modified text has no clause any more, and the rewrite step ends in the
  branch of the failed second search.
\<close>

theorem rematch_fails_after_octal_escape:
  "search pattern_load_csv (butlast octal_name_text)
     = Some \<lparr>m_start = 0, m_end = 34,
         m_groups = [(3, '' AS line''), (4, ''line''), (2, octal_name), (1, ''LOAD CSV FROM '')]\<rparr>
   \<and> is_file backslash_fs ''/out'' octal_name = Inr True
   \<and> pattern_sub pattern_load_csv
        (''LOAD CSV FROM '' @ [QUOTE] @ ''file:///'' @ octal_name @ [QUOTE] @ '' AS line'')
        octal_name_text
      = Some (''LOAD CSV FROM 'file:///'' @ [QUOTE, QUOTE] @ '' AS line\<newline>RETURN 1;'')
   \<and> search pattern_load_csv (''LOAD CSV FROM 'file:///'' @ [QUOTE, QUOTE] @ '' AS line\<newline>RETURN 1;'') = None
   \<and> rewrite backslash_fs edges_x octal_name_text = RematchFailed"
  by code_simp

text \<open>
  Claim C1.  When the script text has a loading clause, the text after the clause is not
  empty once trimmed, the final component of the referenced path names a regular file
  beside the script and has no backslash in it, the rewrite step returns: the text
  before the clause, the clause with \<open>file:///\<close> and that final component between
  its quotes, and one \<open>CALL\<close> block \<open>IN TRANSACTIONS OF 1000 ROWS\<close> around the
  trimmed body without its last character, its newlines indented, followed by the
  final \<open>RETURN\<close> that quotes the name of the script.
\<close>

theorem rewrite_batches:
  assumes "search pattern_load_csv content = Some m"
    and "strip (drop (m_end m) content) \<noteq> []"
    and "is_file fs (parent p) (path_name (m_group m 2)) = Inr True"
    and "BACKSLASH \<notin> set (path_name (m_group m 2))"
  shows "rewrite fs p content =
     Batched (take (m_start m) content
        @ m_group m 1 @ [QUOTE] @ ''file:///'' @ path_name (m_group m 2) @ [QUOTE] @ m_group m 3
        @ [NEWLINE]
        @ ''CALL {'' @ [NEWLINE]
        @ ''    WITH '' @ m_group m 4 @ [NEWLINE]
        @ ''    '' @ indent_newlines (butlast (strip (drop (m_end m) content))) @ [NEWLINE]
        @ ''} IN TRANSACTIONS OF 1000 ROWS'' @ [NEWLINE]
        @ ''RETURN 'Batch processed from '' @ name p @ [QUOTE])"
proof -
  from search_clause_Some[OF assms(1)] obtain pre g1 fl g2 g3 g4 rest where
    s: "content = pre @ g1 @ QUOTE # fl @ g2 @ QUOTE # g3 @ rest"
      "scan_prefix g1 = Some []" "list_all2 ieq ''file:/'' fl" "g2 \<noteq> []" "QUOTE \<notin> set g2"
      "suffix_shape g3 g4" "stops WordChar rest"
      "m = \<lparr>m_start = length pre,
             m_end = length pre + length (g1 @ QUOTE # fl @ g2 @ QUOTE # g3),
             m_groups = [(3, g3), (4, g4), (2, g2), (1, g1)]\<rparr>"
      "\<forall>a b. pre = a @ b \<and> b \<noteq> [] \<longrightarrow>
           clause_at (b @ g1 @ QUOTE # fl @ g2 @ QUOTE # g3 @ rest) = None"
    by (elim exE conjE)
  let ?C = "g1 @ QUOTE # fl @ g2 @ QUOTE # g3"
  let ?repl = "g1 @ [QUOTE] @ ''file:///'' @ path_name g2 @ [QUOTE] @ g3"
  let ?modified = "pre @ ?repl @ rest"
  have g: "m_group m 1 = g1" "m_group m 2 = g2" "m_group m 3 = g3" "m_group m 4 = g4"
    unfolding s(8) by (simp_all add: m_group_def)
  have ms: "m_start m = length pre" "m_end m = length pre + length ?C"
    unfolding s(8) by simp_all
  have c: "content = pre @ ?C @ rest" unfolding s(1) by simp
  have pre: "take (m_start m) content = pre" unfolding ms c by simp
  have rest: "drop (m_end m) content = rest" unfolding ms c by (simp only: drop_append) simp
  have ne: "rest \<noteq> []" using assms(2) unfolding rest by auto
  have "butlast content = pre @ ?C @ butlast rest"
    unfolding c using ne by (simp add: butlast_append)
  then have bl: "butlast content = pre @ g1 @ QUOTE # fl @ g2 @ QUOTE # g3 @ butlast rest"
    by simp
  have first: "search pattern_load_csv (butlast content) = Some m"
    unfolding bl search_clause_build[OF s(2-6) s(9)] stops_butlast[OF s(7)] s(8) by simp
  have bs: "BACKSLASH \<notin> set ?repl"
    using replacement_plain[OF s(2,6)] assms(4) unfolding g by simp
  have "pattern_sub pattern_load_csv ?repl (pre @ g1 @ QUOTE # fl @ g2 @ QUOTE # g3 @ rest)
      = Some (pre @ ?repl @ dropWhile is_word rest)"
    by (rule sub_clause[OF s(2-6) s(9) bs])
  then have sub: "pattern_sub pattern_load_csv ?repl content = Some ?modified"
    unfolding s(1)[symmetric] stops_word_drop[OF s(7)] .
  have re: "search pattern_load_csv ?modified =
     Some \<lparr>m_start = length pre, m_end = length pre + length ?repl,
           m_groups = [(3, g3), (4, g4), (2, ''//'' @ path_name g2), (1, g1)]\<rparr>"
    unfolding research_clause[OF s(2,5,6,9)] stops_word_take[OF s(7)] by simp
  have tk: "take (length pre + length ?repl) ?modified = pre @ ?repl"
    by (simp only: take_append) simp
  have dr: "drop (length pre + length ?repl) ?modified = rest"
    by (simp only: drop_append) simp
  have sub': "pattern_sub pattern_load_csv
      (g1 @ [QUOTE] @ (''file:///'' @ path_name g2) @ [QUOTE] @ g3) content = Some ?modified"
    using sub by simp
  have "rewrite fs p content = Batched (batched_cypher (pre @ ?repl) g4 (strip rest) (name p))"
    unfolding rewrite_def first
    using assms(2,3)
    by (simp only: option.case sum.case Let_def g sub' re re_match.simps tk dr rest) simp
  then show ?thesis
    unfolding batched_cypher_def str_nat_BATCH_SIZE pre rest g by simp
qed

lemma example_search_edges_full:
  "search pattern_load_csv edges_x_text
   = Some \<lparr>m_start = 0, m_end = 46,
       m_groups = [(3, '' AS line''), (4, ''line''), (2, ''edges_x_data.csv''), (1, ''LOAD CSV FROM '')]\<rparr>"
  by code_simp

text \<open>
  On the first example script the hypotheses hold and the result is the expected query.
\<close>

theorem rewrite_batches_witness:
  "search pattern_load_csv edges_x_text
     = Some \<lparr>m_start = 0, m_end = 46,
         m_groups = [(3, '' AS line''), (4, ''line''), (2, ''edges_x_data.csv''), (1, ''LOAD CSV FROM '')]\<rparr>
   \<and> strip (drop 46 edges_x_text) = ''CREATE (a);''
   \<and> is_file example_fs ''/out'' ''edges_x_data.csv'' = Inr True
   \<and> BACKSLASH \<notin> set ''edges_x_data.csv''
   \<and> rewrite example_fs edges_x edges_x_text = Batched edges_x_query"
proof -
  let ?m = "\<lparr>m_start = 0, m_end = 46,
         m_groups = [(3, '' AS line''), (4, ''line''), (2, ''edges_x_data.csv''), (1, ''LOAD CSV FROM '')]\<rparr>"
  have a: "search pattern_load_csv edges_x_text = Some ?m"
    by (rule example_search_edges_full)
  have s: "strip (drop 46 edges_x_text) = ''CREATE (a);''" by code_simp
  have n: "path_name (m_group ?m 2) = ''edges_x_data.csv''" by code_simp
  have b: "strip (drop (m_end ?m) edges_x_text) \<noteq> []" using s by simp
  have c': "is_file example_fs ''/out'' ''edges_x_data.csv'' = Inr True" by code_simp
  have c: "is_file example_fs (parent edges_x) (path_name (m_group ?m 2)) = Inr True"
    unfolding n using c' by (simp add: edges_x_def)
  have d': "BACKSLASH \<notin> set ''edges_x_data.csv''" by simp
  have d: "BACKSLASH \<notin> set (path_name (m_group ?m 2))" unfolding n by (rule d')
  have q: "take (m_start ?m) edges_x_text
        @ m_group ?m 1 @ [QUOTE] @ ''file:///'' @ path_name (m_group ?m 2) @ [QUOTE] @ m_group ?m 3
        @ [NEWLINE]
        @ ''CALL {'' @ [NEWLINE]
        @ ''    WITH '' @ m_group ?m 4 @ [NEWLINE]
        @ ''    '' @ indent_newlines (butlast (strip (drop (m_end ?m) edges_x_text))) @ [NEWLINE]
        @ ''} IN TRANSACTIONS OF 1000 ROWS'' @ [NEWLINE]
        @ ''RETURN 'Batch processed from '' @ name edges_x @ [QUOTE] = edges_x_query"
    by code_simp
  have "rewrite example_fs edges_x edges_x_text = Batched edges_x_query"
    using rewrite_batches[OF a b c d] unfolding q .
  then show ?thesis using a s c' d' by (intro conjI)
qed

text \<open>
  A script that ends with its loading clause is skipped, and a script whose data file
  has a backslash followed by \<open>d\<close> in its name makes the substitution raise: neither
  is rewritten, although the clause is there and the data file exists.
\<close>

theorem no_batch_without_body_or_with_backslash:
  "search pattern_load_csv no_body_text
     = Some \<lparr>m_start = 0, m_end = 46,
         m_groups = [(3, '' AS line''), (4, ''line''), (2, ''edges_x_data.csv''), (1, ''LOAD CSV FROM '')]\<rparr>
   \<and> is_file example_fs ''/out'' ''edges_x_data.csv'' = Inr True
   \<and> rewrite example_fs edges_x no_body_text = NoCoreLogic
   \<and> search pattern_load_csv letter_name_text
     = Some \<lparr>m_start = 0, m_end = 37,
         m_groups = [(3, '' AS line''), (4, ''line''), (2, letter_name), (1, ''LOAD CSV FROM '')]\<rparr>
   \<and> is_file backslash_fs ''/out'' letter_name = Inr True
   \<and> rewrite backslash_fs edges_x letter_name_text = SubRaised"
  by code_simp

end
